theory Spec2Isabelle
  imports Main
begin

section \<open>Values, hooks and observable effects\<close>

text \<open>
  The shutdown manager of \<^verbatim>\<open>src/unnamed/part_000\<close> (class \<^verbatim>\<open>ShutdownManager\<close>) is
  embedded as a state machine.  JavaScript values are needed only as far as the code
  inspects them: \<^verbatim>\<open>typeof error === "object"\<close> in \<^verbatim>\<open>#processErrors\<close> and
  \<^verbatim>\<open>error instanceof Error\<close> in the catch block of \<^verbatim>\<open>#processSignal\<close>.
  \<open>ErrorObject\<close> stands for any object with \<^verbatim>\<open>Error.prototype\<close> in its prototype
  chain, \<open>PlainObject\<close> for any other object.
\<close>

datatype js_value =
    Undefined
  | Null
  | Boolean bool
  | Number int
  | Text string
  | Symbol string
  | BigInt int
  | Func string
  | PlainObject string
  | ErrorObject string

fun typeof :: "js_value \<Rightarrow> string" where
  "typeof Undefined = ''undefined''"
| "typeof Null = ''object''"
| "typeof (Boolean _) = ''boolean''"
| "typeof (Number _) = ''number''"
| "typeof (Text _) = ''string''"
| "typeof (Symbol _) = ''symbol''"
| "typeof (BigInt _) = ''bigint''"
| "typeof (Func _) = ''function''"
| "typeof (PlainObject _) = ''object''"
| "typeof (ErrorObject _) = ''object''"

fun instanceof_Error :: "js_value \<Rightarrow> bool" where
  "instanceof_Error (ErrorObject _) = True"
| "instanceof_Error _ = False"

text \<open>
  A handler has the type \<^verbatim>\<open>() => Promise<void> | void\<close>.  What the manager can observe
  of one call is: the call throws; it returns no promise; or it returns a promise, which
  is already settled, or is pending and settles a number of milliseconds later, or
  never settles.  A fulfilled handler promise carries \<^verbatim>\<open>undefined\<close>, as the type
  \<^verbatim>\<open>void\<close> says.
\<close>

datatype settlement = Fulfils | Rejects js_value

datatype promise =
    Settled settlement
  | SettlesAfter nat settlement
  | NeverSettles

datatype behaviour =
    Throws js_value
  | ReturnsVoid
  | Returns promise

record hook =
  name :: string
  handler :: behaviour

text \<open>
  The logger is called as \<^verbatim>\<open>(message)\<close> or \<^verbatim>\<open>(context, message)\<close>.  The context
  is \<^verbatim>\<open>{ signal }\<close>, the wrapper \<^verbatim>\<open>{ error }\<close> or the value itself.  The messages are
  the string literals and templates of the source:
  \<^item> \<open>Registered n\<close>: \<^verbatim>\<open>Registered "n" hook\<close>
  \<^item> \<open>Exiting c\<close>: \<^verbatim>\<open>Exiting with status code of c\<close>
  \<^item> \<open>Uncaught\<close>: \<^verbatim>\<open>Uncaught/Unhandled\<close>
  \<^item> \<open>Ignoring\<close>: \<^verbatim>\<open>Ignoring process exit signal has the app is shutting down.\<close>
  \<^item> \<open>ProcessingSignal\<close>: \<^verbatim>\<open>Processing exit signal\<close>
  \<^item> \<open>ProcessingHook n\<close>: \<^verbatim>\<open>Processing "n" hook\<close>
  \<^item> \<open>TimedOut n\<close>: \<^verbatim>\<open>Timed out "n" hook\<close>
  \<^item> \<open>Successful n\<close>: \<^verbatim>\<open>Successful "n" hook\<close>
  \<^item> \<open>Unsuccessful n\<close>: \<^verbatim>\<open>Unsuccessful "n" hook\<close>
  \<^item> \<open>Completed\<close>: \<^verbatim>\<open>Exit signal process completed\<close>
  \<^item> \<open>NotGraceful\<close>: \<^verbatim>\<open>Looks like some handlers where not able to be processed gracefully\<close>
  \<^item> \<open>GlobalReached\<close>: \<^verbatim>\<open>Looks like the global timeout was reached\<close>
\<close>

datatype level = Info | Warn | Error

datatype log_context = SignalCtx string | Wrapped js_value | Raw js_value

datatype message =
    Registered string
  | Exiting js_value
  | Uncaught
  | Ignoring
  | ProcessingSignal
  | ProcessingHook string
  | TimedOut string
  | Successful string
  | Unsuccessful string
  | Completed
  | NotGraceful
  | GlobalReached

text \<open>
  What the \<^verbatim>\<open>await\<close> of one loop iteration produces: the value of the race, or the
  exception that reaches the \<^verbatim>\<open>catch\<close> block.
\<close>

datatype response = Resolved js_value | Rejected js_value

text \<open>
  The trace lists, in order, what the manager does to the outside: a call of the
  logger, the call of the handler of the hook at a registry position, the
  \<^verbatim>\<open>abort()\<close> of the controller and the call of \<^verbatim>\<open>process.exit\<close>.  \<open>Finished i t r\<close>
  is a ghost entry: it records that the \<^verbatim>\<open>try\<close> statement of hook \<open>i\<close> was left at
  time \<open>t\<close> with the response \<open>r\<close>.
\<close>

datatype effect =
    Log level "log_context option" message
  | Invoked nat
  | Finished nat nat response
  | AbortFired
  | Exited nat

section \<open>The manager and the process it is bound to\<close>

text \<open>
  \<open>ProcessErrors\<close>, \<open>ProcessSignal s\<close> and \<open>OnExit\<close> are the listeners the manager
  registers (\<^verbatim>\<open>this.#processErrors\<close>, \<^verbatim>\<open>this.#processSignal.bind(this, s)\<close>,
  \<^verbatim>\<open>this.#onExit\<close>); \<open>Foreign\<close> is a listener of other code on the same process.
\<close>

datatype listener = ProcessErrors | ProcessSignal string | OnExit | Foreign nat

record abort_signal =
  ident :: nat
  aborted :: bool

text \<open>
  The constant \<^verbatim>\<open>globalTimeout\<close> is a timer promise: pending until its deadline, then
  fulfilled with \<^verbatim>\<open>"global-timeout"\<close> for good.
\<close>

datatype timer_promise = FiresAt nat | Fired

text \<open>The local variables of \<^verbatim>\<open>#processSignal\<close>; \<open>index\<close> is the position of the
  array iterator of the \<^verbatim>\<open>for ... of\<close> loop.\<close>

record locals =
  signal :: string
  withError :: bool
  forceExit :: bool
  index :: nat
  globalTimeout :: timer_promise

text \<open>The async function suspended at its \<^verbatim>\<open>await\<close>: its locals, the \<^verbatim>\<open>name\<close> of the
  current hook, and when and how the awaited race settles.\<close>

record awaiting =
  frame :: locals
  hookName :: string
  settlesAt :: nat
  outcome :: response

record state =
  handlers :: "hook list"
  signals :: "string list"
  shuttingDown :: bool
  abortController :: abort_signal
  logger :: bool
  perHookTimeout :: int
  shutdownTimeout :: int
  listeners :: "(string \<times> listener) list"
  clock :: nat
  trace :: "effect list"
  suspended :: "awaiting option"

record options =
  signals_opt :: "string list option"
  log_opt :: bool
  perHookTimeout_opt :: "int option"
  shutdownTimeout_opt :: "int option"

definition emit_effect :: "effect \<Rightarrow> state \<Rightarrow> state" where
  "emit_effect e st = st\<lparr>trace := trace st @ [e]\<rparr>"

text \<open>\<^verbatim>\<open>this.#log?.info(...)\<close> and its siblings: nothing is called without a logger.\<close>

definition log_call :: "level \<Rightarrow> log_context option \<Rightarrow> message \<Rightarrow> state \<Rightarrow> state" where
  "log_call lv ctx msg st = (if logger st then emit_effect (Log lv ctx msg) st else st)"

subsection \<open>Listener table of the process\<close>

definition process_on :: "string \<Rightarrow> listener \<Rightarrow> state \<Rightarrow> state" where
  "process_on ev l st = st\<lparr>listeners := listeners st @ [(ev, l)]\<rparr>"

text \<open>\<^verbatim>\<open>process.off\<close> removes the most recently added instance of the listener, if any.\<close>

definition process_off :: "string \<Rightarrow> listener \<Rightarrow> state \<Rightarrow> state" where
  "process_off ev l st = st\<lparr>listeners := rev (remove1 (ev, l) (rev (listeners st)))\<rparr>"

definition removeAllListeners :: "string \<Rightarrow> state \<Rightarrow> state" where
  "removeAllListeners ev st = st\<lparr>listeners := filter (\<lambda>el. fst el \<noteq> ev) (listeners st)\<rparr>"

definition toggle :: "bool \<Rightarrow> string \<Rightarrow> listener \<Rightarrow> state \<Rightarrow> state" where
  "toggle on ev l st = (if on then process_on ev l st else process_off ev l st)"

text \<open>The body of the loop over \<^verbatim>\<open>this.#signals\<close> in \<^verbatim>\<open>#bind\<close>.\<close>

definition bind_signal :: "bool \<Rightarrow> string \<Rightarrow> state \<Rightarrow> state" where
  "bind_signal on s st =
     (if on then process_on s (ProcessSignal s) st else removeAllListeners s st)"

definition bind :: "bool \<Rightarrow> state \<Rightarrow> state" where
  "bind on st =
     (let st1 = toggle on ''uncaughtException'' ProcessErrors st;
          st2 = toggle on ''unhandledRejection'' ProcessErrors st1;
          st3 = fold (bind_signal on) (signals st2) st2
      in toggle on ''exit'' OnExit st3)"

definition default_signals :: "string list" where
  "default_signals = [''SIGINT'', ''SIGTERM'', ''SIGABRT'', ''SIGUSR2'']"

text \<open>The constructor.  Besides the options it takes what it finds: the listeners
  already on the process, the current time and the identity of the fresh
  \<^verbatim>\<open>AbortController\<close>.  The clock stands still until a trigger is accepted (nothing the
  manager does before depends on the time), so \<open>now\<close> is also the time of the trigger.\<close>

definition construct :: "options option \<Rightarrow> (string \<times> listener) list \<Rightarrow> nat \<Rightarrow> nat \<Rightarrow> state" where
  "construct opts ls now ctl =
     bind True
       \<lparr>handlers = [],
        signals = (case Option.bind opts signals_opt of None \<Rightarrow> default_signals | Some s \<Rightarrow> s),
        shuttingDown = False,
        abortController = \<lparr>ident = ctl, aborted = False\<rparr>,
        logger = (case opts of None \<Rightarrow> False | Some p \<Rightarrow> log_opt p),
        perHookTimeout = (case Option.bind opts perHookTimeout_opt of None \<Rightarrow> 5000 | Some n \<Rightarrow> n),
        shutdownTimeout = (case Option.bind opts shutdownTimeout_opt of None \<Rightarrow> 10000 | Some n \<Rightarrow> n),
        listeners = ls,
        clock = now,
        trace = [],
        suspended = None\<rparr>"

definition abortSignal :: "state \<Rightarrow> abort_signal" where
  "abortSignal st = abortController st"

definition hooksSize :: "state \<Rightarrow> nat" where
  "hooksSize st = length (handlers st)"

definition addHook :: "string \<Rightarrow> behaviour \<Rightarrow> state \<Rightarrow> state" where
  "addHook n h st =
     (let st1 = log_call Info None (Registered n) st
      in st1\<lparr>handlers := handlers st1 @ [\<lparr>name = n, handler = h\<rparr>]\<rparr>)"

definition disconnect :: "state \<Rightarrow> state" where
  "disconnect st = bind False st"

definition onExit :: "js_value \<Rightarrow> state \<Rightarrow> state" where
  "onExit code st = log_call Info None (Exiting code) st"

section \<open>The shutdown sequence\<close>

text \<open>\<^verbatim>\<open>AbortController.abort()\<close>: the first call signals, later calls do nothing.\<close>

definition abort :: "state \<Rightarrow> state" where
  "abort st =
     (if aborted (abortController st) then st
      else emit_effect AbortFired (st\<lparr>abortController := (abortController st)\<lparr>aborted := True\<rparr>\<rparr>))"

text \<open>
  \<^verbatim>\<open>process.exit(code)\<close> is recorded in the trace and returns, as it does under the
  mock of the repository's tests.  The real primitive ends the process, so a run of the
  real program is a run of this machine cut after the first \<open>Exited\<close>.
\<close>

definition process_exit :: "nat \<Rightarrow> state \<Rightarrow> state" where
  "process_exit code st = emit_effect (Exited code) st"

text \<open>
  Time is counted in whole milliseconds and passes only while the sequence waits at its
  \<^verbatim>\<open>await\<close>.  \<^verbatim>\<open>timers.setTimeout(ms, value, { ref: false })\<close> makes a timer of Node,
  and Node takes a delay that is not within \<open>1 .. 2^31 - 1\<close> as 1: the timer fires
  \<open>delay ms\<close> milliseconds after its creation.  The configured delays are whole
  numbers, of either sign.  A call of the logger returns normally.
\<close>

definition delay :: "int \<Rightarrow> nat" where
  "delay ms = (if 1 \<le> ms \<and> ms \<le> 2147483647 then nat ms else 1)"

text \<open>
  \<^verbatim>\<open>Promise.race([handler(), timers.setTimeout(perHookTimeout, "timeout"), globalTimeout])\<close>
  for the promise of a handler that returned, started at time \<open>now\<close>.  The result is
  the time at which the race settles and what it settles with.

  \<^item> \<^verbatim>\<open>Promise.race\<close> subscribes to its arguments in array order, and the reaction of
    an already settled promise is queued at once.  So a handler promise that is
    settled when the handler returns wins, also against a global timer that has fired.
  \<^item> A handler promise that is still pending loses against a global timer that has
    fired: the race settles at once with \<^verbatim>\<open>"global-timeout"\<close>.
  \<^item> Otherwise the first to settle wins.  The fresh per-hook timer fires at
    \<open>now + delay perHookTimeout\<close>, the global one at its deadline.
  \<^item> The global timer is made when the trigger is accepted, before any handler is
    called and before any per-hook timer is made, and it fires first of what is due in
    its millisecond: it wins a race that another participant would settle in the
    millisecond of the deadline.  The per-hook timer is made after the handler has
    returned: a handler promise that settles in the millisecond of the per-hook timer
    wins against it.
\<close>

fun settle :: "settlement \<Rightarrow> response" where
  "settle Fulfils = Resolved Undefined"
| "settle (Rejects e) = Rejected e"

definition timer_wins :: "nat \<Rightarrow> int \<Rightarrow> nat \<Rightarrow> nat \<times> response" where
  "timer_wins now per deadline =
     (if now + delay per < deadline then (now + delay per, Resolved (Text ''timeout''))
      else (deadline, Resolved (Text ''global-timeout'')))"

fun race :: "promise \<Rightarrow> nat \<Rightarrow> int \<Rightarrow> timer_promise \<Rightarrow> nat \<times> response" where
  "race (Settled s) now per g = (now, settle s)"
| "race (SettlesAfter d s) now per Fired = (now, Resolved (Text ''global-timeout''))"
| "race (SettlesAfter d s) now per (FiresAt deadline) =
     (if now + d \<le> now + delay per \<and> now + d < deadline then (now + d, settle s)
      else timer_wins now per deadline)"
| "race NeverSettles now per Fired = (now, Resolved (Text ''global-timeout''))"
| "race NeverSettles now per (FiresAt deadline) = timer_wins now per deadline"

text \<open>The context of the error line of a failed hook:
  \<^verbatim>\<open>error instanceof Error ? error : { error }\<close>.\<close>

definition hook_error_context :: "js_value \<Rightarrow> log_context" where
  "hook_error_context e = (if instanceof_Error e then Raw e else Wrapped e)"

text \<open>The statements after the loop.\<close>

definition finish :: "locals \<Rightarrow> state \<Rightarrow> state" where
  "finish r st =
     (let st1 = log_call Info (Some (SignalCtx (signal r))) Completed st;
          st2 = (if withError r then log_call Warn None NotGraceful st1 else st1);
          st3 = (if forceExit r then log_call Warn None GlobalReached st2 else st2)
      in process_exit (if withError r \<or> forceExit r then 1 else 0) st3)"

text \<open>The body of the \<^verbatim>\<open>try\<close> after the \<^verbatim>\<open>await\<close>, and the \<^verbatim>\<open>catch\<close> block: the
  updated locals and the log line, if any.\<close>

definition report :: "string \<Rightarrow> response \<Rightarrow> locals \<Rightarrow> state \<Rightarrow> locals \<times> state" where
  "report n resp r st =
     (case resp of
        Resolved v \<Rightarrow>
          if v = Text ''timeout'' then (r\<lparr>withError := True\<rparr>, log_call Info None (TimedOut n) st)
          else if v = Text ''global-timeout'' then (r\<lparr>forceExit := True\<rparr>, st)
          else (r, log_call Info None (Successful n) st)
      | Rejected e \<Rightarrow>
          (r\<lparr>withError := True\<rparr>, log_call Error (Some (hook_error_context e)) (Unsuccessful n) st))"

text \<open>
  The \<^verbatim>\<open>for ... of\<close> loop from the iterator position \<open>index r\<close> on, up to the next
  \<^verbatim>\<open>await\<close> that suspends the function or to the end of the function.  The first
  argument is the rest of the registry, \<open>drop (index r) (handlers st)\<close>; nothing can
  change the registry while this runs.  A handler that throws is caught at once and
  the loop goes on without suspending; any other handler leaves the function
  suspended at the race.  A handler that returns no promise puts \<^verbatim>\<open>undefined\<close> into
  the array, which \<^verbatim>\<open>Promise.race\<close> treats as a promise fulfilled with it.
\<close>

definition await_race :: "promise \<Rightarrow> hook \<Rightarrow> locals \<Rightarrow> state \<Rightarrow> state" where
  "await_race p h r st =
     (let (t, resp) = race p (clock st) (perHookTimeout st) (globalTimeout r)
      in st\<lparr>suspended := Some \<lparr>frame = r, hookName = name h, settlesAt = t, outcome = resp\<rparr>\<rparr>)"

fun loop :: "hook list \<Rightarrow> locals \<Rightarrow> state \<Rightarrow> state" where
  "loop [] r st = finish r st"
| "loop (h # hs) r st =
     (let st1 = log_call Info None (ProcessingHook (name h)) st;
          st2 = emit_effect (Invoked (index r)) st1
      in case handler h of
           Throws e \<Rightarrow>
             (let st3 = emit_effect (Finished (index r) (clock st2) (Rejected e)) st2;
                  (r', st4) = report (name h) (Rejected e) r st3
              in loop hs (r'\<lparr>index := Suc (index r)\<rparr>) st4)
         | ReturnsVoid \<Rightarrow> await_race (Settled Fulfils) h r st2
         | Returns p \<Rightarrow> await_race p h r st2)"

text \<open>The event loop resumes the suspended function once the race has settled.  The
  global timer promise is fulfilled from the moment it has won a race.\<close>

definition resume :: "state \<Rightarrow> state" where
  "resume st =
     (case suspended st of
        None \<Rightarrow> st
      | Some a \<Rightarrow>
          (let r = frame a;
               st1 = st\<lparr>suspended := None, clock := settlesAt a\<rparr>;
               st2 = emit_effect (Finished (index r) (settlesAt a) (outcome a)) st1;
               (r1, st3) = report (hookName a) (outcome a) r st2;
               r2 = r1\<lparr>index := Suc (index r),
                       globalTimeout :=
                         (if outcome a = Resolved (Text ''global-timeout'') then Fired
                          else globalTimeout r)\<rparr>
           in loop (drop (index r2) (handlers st3)) r2 st3))"

definition processSignal :: "string \<Rightarrow> state \<Rightarrow> state" where
  "processSignal sig st =
     (if shuttingDown st then log_call Warn (Some (SignalCtx sig)) Ignoring st
      else
        (let st1 = log_call Info (Some (SignalCtx sig)) ProcessingSignal st;
             st2 = st1\<lparr>shuttingDown := True\<rparr>;
             st3 = abort st2;
             r = \<lparr>signal = sig, withError = False, forceExit = False, index = 0,
                  globalTimeout = FiresAt (clock st3 + delay (shutdownTimeout st3))\<rparr>
         in loop (handlers st3) r st3))"

definition processErrors :: "js_value \<Rightarrow> state \<Rightarrow> state" where
  "processErrors error st =
     (let st1 = log_call Error
                  (Some (if typeof error = ''object'' then Raw error else Wrapped error))
                  Uncaught st
      in processSignal ''SIGUSR2'' st1)"

section \<open>The machine\<close>

text \<open>
  The process calls a listener with the argument of the event.  A foreign listener
  does nothing to the manager.
\<close>

fun call :: "listener \<Rightarrow> js_value \<Rightarrow> state \<Rightarrow> state" where
  "call ProcessErrors arg st = processErrors arg st"
| "call (ProcessSignal s) arg st = processSignal s st"
| "call OnExit arg st = onExit arg st"
| "call (Foreign _) arg st = st"

definition emit :: "string \<Rightarrow> js_value \<Rightarrow> state \<Rightarrow> state" where
  "emit ev arg st =
     fold (\<lambda>l. call l arg) (map snd (filter (\<lambda>el. fst el = ev) (listeners st))) st"

text \<open>
  JavaScript runs each of these to completion before the next one starts: a call of
  \<^verbatim>\<open>addHook\<close> or \<^verbatim>\<open>disconnect\<close>, an event emitted on the process, and the resumption
  of the suspended shutdown sequence.  A run of the program is a list of them.  The
  events are the environment's: a signal, an uncaught exception, an unhandled
  rejection, and \<^verbatim>\<open>exit\<close> with the status code.  So is \<open>Resume\<close>: both timers are made
  with \<^verbatim>\<open>{ ref: false }\<close> and do not keep the process alive, and whether it lives until
  a race has settled is not for the manager to decide.
\<close>

datatype input =
    AddHook string behaviour
  | Disconnect
  | Emit string js_value
  | Resume

fun step :: "input \<Rightarrow> state \<Rightarrow> state" where
  "step (AddHook n h) st = addHook n h st"
| "step Disconnect st = disconnect st"
| "step (Emit ev arg) st = emit ev arg st"
| "step Resume st = resume st"

definition exec :: "input list \<Rightarrow> state \<Rightarrow> state" where
  "exec ins st = fold step ins st"

section \<open>Reading a trace\<close>

fun exit_of :: "effect \<Rightarrow> nat list" where
  "exit_of (Exited c) = [c]"
| "exit_of _ = []"

definition exits :: "effect list \<Rightarrow> nat list" where
  "exits T = concat (map exit_of T)"

fun failed_response :: "response \<Rightarrow> bool" where
  "failed_response (Rejected e) = True"
| "failed_response (Resolved v) = (v = Text ''timeout'')"

fun failure :: "effect \<Rightarrow> bool" where
  "failure (Finished i t r) = failed_response r"
| "failure _ = False"

fun deadline_hit :: "effect \<Rightarrow> bool" where
  "deadline_hit (Finished i t r) = (r = Resolved (Text ''global-timeout''))"
| "deadline_hit _ = False"

definition hadError :: "effect list \<Rightarrow> bool" where
  "hadError T = list_ex failure T"

definition deadlineReached :: "effect list \<Rightarrow> bool" where
  "deadlineReached T = list_ex deadline_hit T"

definition in_flight :: "state \<Rightarrow> bool" where
  "in_flight st = (suspended st \<noteq> None)"

definition completed :: "state \<Rightarrow> bool" where
  "completed st = (shuttingDown st \<and> suspended st = None)"

definition report_line :: "bool \<Rightarrow> string \<Rightarrow> response \<Rightarrow> effect list" where
  "report_line lg n resp =
     (if \<not> lg then []
      else case resp of
        Resolved v \<Rightarrow>
          if v = Text ''timeout'' then [Log Info None (TimedOut n)]
          else if v = Text ''global-timeout'' then []
          else [Log Info None (Successful n)]
      | Rejected e \<Rightarrow> [Log Error (Some (hook_error_context e)) (Unsuccessful n)])"

fun idle_effect :: "effect \<Rightarrow> bool" where
  "idle_effect (Log lv c (Registered n)) = True"
| "idle_effect (Log lv c (Exiting v)) = True"
| "idle_effect (Log lv c Uncaught) = True"
| "idle_effect _ = False"

definition inv_flags :: "state \<Rightarrow> bool" where
  "inv_flags st =
    ((\<not> shuttingDown st \<longrightarrow>
        suspended st = None \<and> \<not> aborted (abortController st) \<and> list_all idle_effect (trace st))
   \<and> (shuttingDown st \<longrightarrow>
        aborted (abortController st) \<and> count_list (trace st) AbortFired = 1)
   \<and> (case suspended st of
        None \<Rightarrow>
          shuttingDown st \<longrightarrow>
            exits (trace st) = [if hadError (trace st) \<or> deadlineReached (trace st) then 1 else 0]
          \<and> (logger st \<longrightarrow>
               (Log Warn None NotGraceful \<in> set (trace st)) = hadError (trace st)
             \<and> (Log Warn None GlobalReached \<in> set (trace st)) = deadlineReached (trace st))
      | Some a \<Rightarrow>
          shuttingDown st \<and> exits (trace st) = []
        \<and> withError (frame a) = hadError (trace st)
        \<and> forceExit (frame a) = deadlineReached (trace st)
        \<and> (globalTimeout (frame a) = Fired) = deadlineReached (trace st)
        \<and> Log Warn None NotGraceful \<notin> set (trace st)
        \<and> Log Warn None GlobalReached \<notin> set (trace st)))"

definition entry_flags :: "locals \<Rightarrow> state \<Rightarrow> bool" where
  "entry_flags r st =
    (shuttingDown st \<and> aborted (abortController st) \<and> count_list (trace st) AbortFired = 1
   \<and> suspended st = None \<and> exits (trace st) = []
   \<and> withError r = hadError (trace st)
   \<and> forceExit r = deadlineReached (trace st)
   \<and> (globalTimeout r = Fired) = deadlineReached (trace st)
   \<and> Log Warn None NotGraceful \<notin> set (trace st)
   \<and> Log Warn None GlobalReached \<notin> set (trace st))"

fun response_of :: "effect \<Rightarrow> (nat \<times> nat \<times> response) list" where
  "response_of (Finished i t r) = [(i, t, r)]"
| "response_of _ = []"

definition responses :: "effect list \<Rightarrow> (nat \<times> nat \<times> response) list" where
  "responses T = concat (map response_of T)"

fun invoked_of :: "effect \<Rightarrow> nat list" where
  "invoked_of (Invoked i) = [i]"
| "invoked_of _ = []"

definition invoked :: "effect list \<Rightarrow> nat list" where
  "invoked T = concat (map invoked_of T)"

fun is_hook_effect :: "effect \<Rightarrow> bool" where
  "is_hook_effect (Log lv c (ProcessingHook n)) = True"
| "is_hook_effect (Log lv c (TimedOut n)) = True"
| "is_hook_effect (Log lv c (Successful n)) = True"
| "is_hook_effect (Log lv c (Unsuccessful n)) = True"
| "is_hook_effect (Invoked i) = True"
| "is_hook_effect (Finished i t r) = True"
| "is_hook_effect _ = False"

definition hook_trace :: "effect list \<Rightarrow> effect list" where
  "hook_trace T = filter is_hook_effect T"

definition announce :: "bool \<Rightarrow> string \<Rightarrow> effect list" where
  "announce lg n = (if lg then [Log Info None (ProcessingHook n)] else [])"

definition segment :: "bool \<Rightarrow> hook list \<Rightarrow> nat \<times> nat \<times> response \<Rightarrow> effect list" where
  "segment lg H x =
     announce lg (name (H ! fst x)) @ [Invoked (fst x), Finished (fst x) (fst (snd x)) (snd (snd x))]
     @ report_line lg (name (H ! fst x)) (snd (snd x))"

definition segments :: "bool \<Rightarrow> hook list \<Rightarrow> effect list \<Rightarrow> effect list" where
  "segments lg H T = concat (map (segment lg H) (responses T))"

definition current :: "state \<Rightarrow> effect list" where
  "current st =
     (case suspended st of
        None \<Rightarrow> []
      | Some a \<Rightarrow> announce (logger st) (hookName a) @ [Invoked (index (frame a))])"

definition inv_struct :: "state \<Rightarrow> bool" where
  "inv_struct st =
     (map fst (responses (trace st)) = [0..<length (responses (trace st))]
    \<and> hook_trace (trace st) = segments (logger st) (handlers st) (trace st) @ current st
    \<and> (case suspended st of
          None \<Rightarrow> length (responses (trace st)) \<le> length (handlers st)
        | Some a \<Rightarrow>
            index (frame a) = length (responses (trace st))
          \<and> index (frame a) < length (handlers st)
          \<and> hookName a = name (handlers st ! index (frame a))))"

definition entry_struct :: "locals \<Rightarrow> state \<Rightarrow> bool" where
  "entry_struct r st =
     (suspended st = None
    \<and> index r = length (responses (trace st))
    \<and> map fst (responses (trace st)) = [0..<length (responses (trace st))]
    \<and> index r \<le> length (handlers st)
    \<and> hook_trace (trace st) = segments (logger st) (handlers st) (trace st))"

fun returned :: "behaviour \<Rightarrow> promise option" where
  "returned (Throws e) = None"
| "returned ReturnsVoid = Some (Settled Fulfils)"
| "returned (Returns p) = Some p"

definition inv_race :: "state \<Rightarrow> bool" where
  "inv_race st =
     (case suspended st of
        None \<Rightarrow> True
      | Some a \<Rightarrow>
          index (frame a) < length (handlers st)
        \<and> (case returned (handler (handlers st ! index (frame a))) of
              None \<Rightarrow> False
            | Some p \<Rightarrow>
                (settlesAt a, outcome a) =
                  race p (clock st) (perHookTimeout st) (globalTimeout (frame a))))"

definition invariant :: "state \<Rightarrow> bool" where
  "invariant st = (inv_flags st \<and> inv_struct st \<and> inv_race st)"

definition abort_first :: "effect list \<Rightarrow> bool" where
  "abort_first T = (hook_trace (takeWhile (\<lambda>e. e \<noteq> AbortFired) T) = [])"

definition invariant2 :: "state \<Rightarrow> bool" where
  "invariant2 st = (invariant st \<and> abort_first (trace st))"

fun own :: "listener \<Rightarrow> bool" where
  "own (Foreign k) = False"
| "own l = True"

fun well_placed :: "string list \<Rightarrow> string \<times> listener \<Rightarrow> bool" where
  "well_placed sigs (ev, ProcessErrors) = (ev = ''uncaughtException'' \<or> ev = ''unhandledRejection'')"
| "well_placed sigs (ev, ProcessSignal s) = (ev = s \<and> s \<in> set sigs)"
| "well_placed sigs (ev, OnExit) = (ev = ''exit'')"
| "well_placed sigs (ev, Foreign k) = True"

definition inv_listeners :: "state \<Rightarrow> bool" where
  "inv_listeners st =
     (count_list (listeners st) (''uncaughtException'', ProcessErrors) \<le> 1
    \<and> count_list (listeners st) (''unhandledRejection'', ProcessErrors) \<le> 1
    \<and> count_list (listeners st) (''exit'', OnExit) \<le> 1
    \<and> list_all (well_placed (signals st)) (listeners st))"

definition released :: "string list \<Rightarrow> (string \<times> listener) list \<Rightarrow> (string \<times> listener) list" where
  "released sigs L =
     rev (remove1 (''exit'', OnExit) (rev (filter (\<lambda>el. fst el \<notin> set sigs)
       (rev (remove1 (''unhandledRejection'', ProcessErrors)
         (remove1 (''uncaughtException'', ProcessErrors) (rev L)))))))"

definition started_after_previous :: "effect list \<Rightarrow> bool" where
  "started_after_previous T =
     list_all (\<lambda>m. case m of
                 0 \<Rightarrow> True
               | Suc n \<Rightarrow> n \<in> set (map fst (responses (takeWhile (\<lambda>e. e \<noteq> Invoked (Suc n)) T))))
       (invoked T)"

definition invariant3 :: "state \<Rightarrow> bool" where
  "invariant3 st = (invariant st \<and> started_after_previous (trace st))"

definition remaining :: "state \<Rightarrow> nat" where
  "remaining st =
     (case suspended st of
        None \<Rightarrow> 0
      | Some a \<Rightarrow> length (handlers st) - index (frame a))"

definition inv_deadline :: "nat \<Rightarrow> state \<Rightarrow> bool" where
  "inv_deadline t0 st =
     ((\<not> shuttingDown st \<longrightarrow> clock st = t0)
    \<and> (case suspended st of
          None \<Rightarrow> True
        | Some a \<Rightarrow>
            globalTimeout (frame a) = Fired
          \<or> globalTimeout (frame a) = FiresAt (t0 + delay (shutdownTimeout st))
            \<and> clock st < t0 + delay (shutdownTimeout st)))"

definition invariant4 :: "nat \<Rightarrow> state \<Rightarrow> bool" where
  "invariant4 t0 st = (invariant st \<and> inv_deadline t0 st)"

text \<open>What the \<^verbatim>\<open>try\<close> statement of a hook can end with, given what its handler does
  and the per-hook delay.\<close>

fun explains :: "int \<Rightarrow> behaviour \<Rightarrow> response \<Rightarrow> bool" where
  "explains per (Throws e) r = (r = Rejected e)"
| "explains per ReturnsVoid r = (r = Resolved Undefined)"
| "explains per (Returns (Settled Fulfils)) r = (r = Resolved Undefined)"
| "explains per (Returns (Settled (Rejects e))) r = (r = Rejected e)"
| "explains per (Returns (SettlesAfter d Fulfils)) r =
     (if d \<le> delay per then r = Resolved Undefined \<or> r = Resolved (Text ''global-timeout'')
      else r = Resolved (Text ''timeout'') \<or> r = Resolved (Text ''global-timeout''))"
| "explains per (Returns (SettlesAfter d (Rejects e))) r =
     (if d \<le> delay per then r = Rejected e \<or> r = Resolved (Text ''global-timeout'')
      else r = Resolved (Text ''timeout'') \<or> r = Resolved (Text ''global-timeout''))"
| "explains per (Returns NeverSettles) r =
     (r = Resolved (Text ''timeout'') \<or> r = Resolved (Text ''global-timeout''))"

definition explained :: "int \<Rightarrow> hook list \<Rightarrow> nat \<times> nat \<times> response \<Rightarrow> bool" where
  "explained per hs x = (fst x < length hs \<and> explains per (handler (hs ! fst x)) (snd (snd x)))"

definition inv_responses :: "state \<Rightarrow> bool" where
  "inv_responses st =
     list_all (explained (perHookTimeout st) (handlers st)) (responses (trace st))"

definition invariant5 :: "state \<Rightarrow> bool" where
  "invariant5 st = (invariant st \<and> inv_responses st)"

section \<open>How the operations change the state\<close>

lemma exits_simps [simp]:
  "exits [] = []" "exits (T @ U) = exits T @ exits U" "exits (e # T) = exit_of e @ exits T"
  by (simp_all add: exits_def)

lemma hadError_simps [simp]:
  "hadError [] = False" "hadError (T @ U) = (hadError T \<or> hadError U)"
  "hadError (e # T) = (failure e \<or> hadError T)"
  by (simp_all add: hadError_def)

lemma deadlineReached_simps [simp]:
  "deadlineReached [] = False" "deadlineReached (T @ U) = (deadlineReached T \<or> deadlineReached U)"
  "deadlineReached (e # T) = (deadline_hit e \<or> deadlineReached T)"
  by (simp_all add: deadlineReached_def)

lemma emit_effect_fields [simp]:
  "trace (emit_effect e st) = trace st @ [e]"
  "handlers (emit_effect e st) = handlers st"
  "signals (emit_effect e st) = signals st"
  "shuttingDown (emit_effect e st) = shuttingDown st"
  "abortController (emit_effect e st) = abortController st"
  "logger (emit_effect e st) = logger st"
  "perHookTimeout (emit_effect e st) = perHookTimeout st"
  "shutdownTimeout (emit_effect e st) = shutdownTimeout st"
  "listeners (emit_effect e st) = listeners st"
  "clock (emit_effect e st) = clock st"
  "suspended (emit_effect e st) = suspended st"
  by (simp_all add: emit_effect_def)

lemma log_call_fields [simp]:
  "trace (log_call lv c m st) = trace st @ (if logger st then [Log lv c m] else [])"
  "handlers (log_call lv c m st) = handlers st"
  "signals (log_call lv c m st) = signals st"
  "shuttingDown (log_call lv c m st) = shuttingDown st"
  "abortController (log_call lv c m st) = abortController st"
  "logger (log_call lv c m st) = logger st"
  "perHookTimeout (log_call lv c m st) = perHookTimeout st"
  "shutdownTimeout (log_call lv c m st) = shutdownTimeout st"
  "listeners (log_call lv c m st) = listeners st"
  "clock (log_call lv c m st) = clock st"
  "suspended (log_call lv c m st) = suspended st"
  by (simp_all add: log_call_def)

lemma report_fields [simp]:
  "handlers (snd (report n resp r st)) = handlers st"
  "signals (snd (report n resp r st)) = signals st"
  "shuttingDown (snd (report n resp r st)) = shuttingDown st"
  "abortController (snd (report n resp r st)) = abortController st"
  "logger (snd (report n resp r st)) = logger st"
  "perHookTimeout (snd (report n resp r st)) = perHookTimeout st"
  "shutdownTimeout (snd (report n resp r st)) = shutdownTimeout st"
  "listeners (snd (report n resp r st)) = listeners st"
  "clock (snd (report n resp r st)) = clock st"
  "suspended (snd (report n resp r st)) = suspended st"
  by (simp_all add: report_def split: response.splits)

lemma report_locals [simp]:
  "signal (fst (report n resp r st)) = signal r"
  "index (fst (report n resp r st)) = index r"
  "globalTimeout (fst (report n resp r st)) = globalTimeout r"
  "withError (fst (report n resp r st)) = (withError r \<or> failed_response resp)"
  "forceExit (fst (report n resp r st)) = (forceExit r \<or> resp = Resolved (Text ''global-timeout''))"
  by (auto simp add: report_def split: response.splits)

lemma report_trace [simp]:
  "trace (snd (report n resp r st)) = trace st @ report_line (logger st) n resp"
  by (simp add: report_def report_line_def split: response.splits)

lemma finish_fields [simp]:
  "handlers (finish r st) = handlers st"
  "signals (finish r st) = signals st"
  "shuttingDown (finish r st) = shuttingDown st"
  "abortController (finish r st) = abortController st"
  "logger (finish r st) = logger st"
  "perHookTimeout (finish r st) = perHookTimeout st"
  "shutdownTimeout (finish r st) = shutdownTimeout st"
  "listeners (finish r st) = listeners st"
  "clock (finish r st) = clock st"
  "suspended (finish r st) = suspended st"
  by (simp_all add: finish_def process_exit_def Let_def)

lemma finish_trace:
  "trace (finish r st) = trace st
     @ (if logger st then [Log Info (Some (SignalCtx (signal r))) Completed] else [])
     @ (if logger st \<and> withError r then [Log Warn None NotGraceful] else [])
     @ (if logger st \<and> forceExit r then [Log Warn None GlobalReached] else [])
     @ [Exited (if withError r \<or> forceExit r then 1 else 0)]"
  by (simp add: finish_def process_exit_def Let_def)

lemma await_race_fields [simp]:
  "trace (await_race p h r st) = trace st"
  "handlers (await_race p h r st) = handlers st"
  "signals (await_race p h r st) = signals st"
  "shuttingDown (await_race p h r st) = shuttingDown st"
  "abortController (await_race p h r st) = abortController st"
  "logger (await_race p h r st) = logger st"
  "perHookTimeout (await_race p h r st) = perHookTimeout st"
  "shutdownTimeout (await_race p h r st) = shutdownTimeout st"
  "listeners (await_race p h r st) = listeners st"
  "clock (await_race p h r st) = clock st"
  by (simp_all add: await_race_def split: prod.splits)

lemma loop_fields [simp]:
  "handlers (loop hs r st) = handlers st"
  "signals (loop hs r st) = signals st"
  "shuttingDown (loop hs r st) = shuttingDown st"
  "abortController (loop hs r st) = abortController st"
  "logger (loop hs r st) = logger st"
  "perHookTimeout (loop hs r st) = perHookTimeout st"
  "shutdownTimeout (loop hs r st) = shutdownTimeout st"
  "listeners (loop hs r st) = listeners st"
  "clock (loop hs r st) = clock st"
  by (induction hs arbitrary: r st; simp add: Let_def case_prod_beta split: behaviour.splits)+

lemma toggle_fields [simp]:
  "handlers (toggle on ev l st) = handlers st"
  "signals (toggle on ev l st) = signals st"
  "shuttingDown (toggle on ev l st) = shuttingDown st"
  "abortController (toggle on ev l st) = abortController st"
  "logger (toggle on ev l st) = logger st"
  "perHookTimeout (toggle on ev l st) = perHookTimeout st"
  "shutdownTimeout (toggle on ev l st) = shutdownTimeout st"
  "clock (toggle on ev l st) = clock st"
  "trace (toggle on ev l st) = trace st"
  "suspended (toggle on ev l st) = suspended st"
  by (simp_all add: toggle_def process_on_def process_off_def)

lemma bind_signal_fields [simp]:
  "handlers (bind_signal on s st) = handlers st"
  "signals (bind_signal on s st) = signals st"
  "shuttingDown (bind_signal on s st) = shuttingDown st"
  "abortController (bind_signal on s st) = abortController st"
  "logger (bind_signal on s st) = logger st"
  "perHookTimeout (bind_signal on s st) = perHookTimeout st"
  "shutdownTimeout (bind_signal on s st) = shutdownTimeout st"
  "clock (bind_signal on s st) = clock st"
  "trace (bind_signal on s st) = trace st"
  "suspended (bind_signal on s st) = suspended st"
  by (simp_all add: bind_signal_def process_on_def removeAllListeners_def)

lemma fold_bind_signal_fields [simp]:
  "handlers (fold (bind_signal on) xs st) = handlers st"
  "signals (fold (bind_signal on) xs st) = signals st"
  "shuttingDown (fold (bind_signal on) xs st) = shuttingDown st"
  "abortController (fold (bind_signal on) xs st) = abortController st"
  "logger (fold (bind_signal on) xs st) = logger st"
  "perHookTimeout (fold (bind_signal on) xs st) = perHookTimeout st"
  "shutdownTimeout (fold (bind_signal on) xs st) = shutdownTimeout st"
  "clock (fold (bind_signal on) xs st) = clock st"
  "trace (fold (bind_signal on) xs st) = trace st"
  "suspended (fold (bind_signal on) xs st) = suspended st"
  by (induction xs arbitrary: st; simp)+

lemma bind_fields [simp]:
  "handlers (bind on st) = handlers st"
  "signals (bind on st) = signals st"
  "shuttingDown (bind on st) = shuttingDown st"
  "abortController (bind on st) = abortController st"
  "logger (bind on st) = logger st"
  "perHookTimeout (bind on st) = perHookTimeout st"
  "shutdownTimeout (bind on st) = shutdownTimeout st"
  "clock (bind on st) = clock st"
  "trace (bind on st) = trace st"
  "suspended (bind on st) = suspended st"
  by (simp_all add: bind_def Let_def)

lemma idle_effect_facts:
  "list_all idle_effect T \<Longrightarrow>
     exits T = [] \<and> \<not> hadError T \<and> \<not> deadlineReached T \<and> count_list T AbortFired = 0
     \<and> Log Warn None NotGraceful \<notin> set T \<and> Log Warn None GlobalReached \<notin> set T"
proof (induction T)
  case Nil
  then show ?case by simp
next
  case (Cons e T)
  then show ?case by (cases e rule: idle_effect.cases) auto
qed

lemma loop_flags: "entry_flags r st \<Longrightarrow> inv_flags (loop hs r st)"
proof (induction hs arbitrary: r st)
  case Nil
  then show ?case
    by (auto simp add: entry_flags_def inv_flags_def finish_trace)
next
  case (Cons h hs)
  show ?case
  proof (cases "handler h")
    case (Throws e)
    let ?st4 = "snd (report (name h) (Rejected e) r
                 (emit_effect (Finished (index r) (clock st) (Rejected e))
                   (emit_effect (Invoked (index r)) (log_call Info None (ProcessingHook (name h)) st))))"
    let ?r' = "(fst (report (name h) (Rejected e) r
                 (emit_effect (Finished (index r) (clock st) (Rejected e))
                   (emit_effect (Invoked (index r)) (log_call Info None (ProcessingHook (name h)) st)))))\<lparr>index := Suc (index r)\<rparr>"
    have "entry_flags ?r' ?st4"
      using Cons.prems
      by (auto simp add: entry_flags_def report_line_def)
    then have "inv_flags (loop hs ?r' ?st4)" by (rule Cons.IH)
    then show ?thesis using Throws by (simp add: Let_def case_prod_beta)
  next
    case ReturnsVoid
    then show ?thesis using Cons.prems
      by (auto simp add: entry_flags_def inv_flags_def Let_def await_race_def split: prod.splits)
  next
    case (Returns p)
    then show ?thesis using Cons.prems
      by (auto simp add: entry_flags_def inv_flags_def Let_def await_race_def split: prod.splits)
  qed
qed

lemma report_line_cases:
  "e \<in> set (report_line lg n resp) \<Longrightarrow>
     e = Log Info None (TimedOut n) \<or> e = Log Info None (Successful n)
     \<or> (\<exists>c. e = Log Error (Some c) (Unsuccessful n))"
  by (auto simp add: report_line_def split: if_splits response.splits)

lemma report_line_observed [simp]:
  "exits (report_line lg n resp) = []"
  "hadError (report_line lg n resp) = False"
  "deadlineReached (report_line lg n resp) = False"
  "count_list (report_line lg n resp) AbortFired = 0"
  "Log Warn None NotGraceful \<notin> set (report_line lg n resp)"
  "Log Warn None GlobalReached \<notin> set (report_line lg n resp)"
  by (auto simp add: report_line_def split: response.splits)

lemma inv_flags_addHook: "inv_flags st \<Longrightarrow> inv_flags (addHook n h st)"
  by (auto simp add: inv_flags_def addHook_def Let_def split: option.splits)

lemma inv_flags_disconnect: "inv_flags st \<Longrightarrow> inv_flags (disconnect st)"
  by (auto simp add: inv_flags_def disconnect_def split: option.splits)

lemma inv_flags_onExit: "inv_flags st \<Longrightarrow> inv_flags (onExit c st)"
  by (auto simp add: inv_flags_def onExit_def split: option.splits)

lemma abort_fields [simp]:
  "handlers (abort st) = handlers st"
  "signals (abort st) = signals st"
  "shuttingDown (abort st) = shuttingDown st"
  "logger (abort st) = logger st"
  "perHookTimeout (abort st) = perHookTimeout st"
  "shutdownTimeout (abort st) = shutdownTimeout st"
  "listeners (abort st) = listeners st"
  "clock (abort st) = clock st"
  "suspended (abort st) = suspended st"
  "aborted (abortController (abort st)) = True"
  "ident (abortController (abort st)) = ident (abortController st)"
  "trace (abort st) = trace st @ (if aborted (abortController st) then [] else [AbortFired])"
  by (simp_all add: abort_def)

lemma inv_flags_processSignal: "inv_flags st \<Longrightarrow> inv_flags (processSignal sig st)"
proof (cases "shuttingDown st")
  case True
  assume "inv_flags st"
  with True show ?thesis
    by (auto simp add: inv_flags_def processSignal_def split: option.splits)
next
  case False
  assume inv: "inv_flags st"
  let ?st3 = "abort ((log_call Info (Some (SignalCtx sig)) ProcessingSignal st)\<lparr>shuttingDown := True\<rparr>)"
  let ?r = "\<lparr>signal = sig, withError = False, forceExit = False, index = 0,
             globalTimeout = FiresAt (clock ?st3 + delay (shutdownTimeout ?st3))\<rparr>"
  from inv False have idle: "suspended st = None" "\<not> aborted (abortController st)"
    "list_all idle_effect (trace st)"
    by (simp_all add: inv_flags_def)
  have "entry_flags ?r ?st3"
    using idle idle_effect_facts [OF idle(3)] by (simp add: entry_flags_def)
  then have "inv_flags (loop (handlers ?st3) ?r ?st3)" by (rule loop_flags)
  with False show ?thesis by (simp add: processSignal_def Let_def)
qed

lemma inv_flags_processErrors: "inv_flags st \<Longrightarrow> inv_flags (processErrors v st)"
proof -
  assume inv: "inv_flags st"
  have "inv_flags (log_call Error (Some (if typeof v = ''object'' then Raw v else Wrapped v)) Uncaught st)"
    using inv by (auto simp add: inv_flags_def split: option.splits)
  then show ?thesis
    unfolding processErrors_def Let_def by (rule inv_flags_processSignal)
qed

lemma inv_flags_call: "inv_flags st \<Longrightarrow> inv_flags (call l arg st)"
  by (cases l) (simp_all add: inv_flags_processSignal inv_flags_processErrors inv_flags_onExit)

lemma fold_invariant:
  "P st \<Longrightarrow> (\<And>x s. P s \<Longrightarrow> P (f x s)) \<Longrightarrow> P (fold f xs st)"
  by (induction xs arbitrary: st) simp_all

lemma inv_flags_emit: "inv_flags st \<Longrightarrow> inv_flags (emit ev arg st)"
  unfolding emit_def by (rule fold_invariant) (simp_all add: inv_flags_call)

lemma inv_flags_resume: "inv_flags st \<Longrightarrow> inv_flags (resume st)"
proof (cases "suspended st")
  case None
  assume "inv_flags st"
  with None show ?thesis by (simp add: resume_def)
next
  case (Some a)
  assume inv: "inv_flags st"
  let ?st2 = "emit_effect (Finished (index (frame a)) (settlesAt a) (outcome a))
               (st\<lparr>suspended := None, clock := settlesAt a\<rparr>)"
  let ?rep = "report (hookName a) (outcome a) (frame a) ?st2"
  let ?r2 = "(fst ?rep)\<lparr>index := Suc (index (frame a)),
               globalTimeout := (if outcome a = Resolved (Text ''global-timeout'') then Fired
                                 else globalTimeout (frame a))\<rparr>"
  have "entry_flags ?r2 (snd ?rep)"
    using inv Some by (auto simp add: inv_flags_def entry_flags_def)
  then have "inv_flags (loop (drop (index ?r2) (handlers (snd ?rep))) ?r2 (snd ?rep))"
    by (rule loop_flags)
  with Some show ?thesis by (simp add: resume_def Let_def case_prod_beta)
qed

lemma inv_flags_step: "inv_flags st \<Longrightarrow> inv_flags (step i st)"
  by (cases i) (simp_all add: inv_flags_addHook inv_flags_disconnect inv_flags_emit inv_flags_resume)

lemma inv_flags_construct: "inv_flags (construct opts ls now ctl)"
  by (simp add: inv_flags_def construct_def split: option.splits)

lemma inv_flags_exec: "inv_flags st \<Longrightarrow> inv_flags (exec ins st)"
  unfolding exec_def by (rule fold_invariant) (simp_all add: inv_flags_step)

lemma responses_simps [simp]:
  "responses [] = []" "responses (T @ U) = responses T @ responses U"
  "responses (e # T) = response_of e @ responses T"
  by (simp_all add: responses_def)

lemma all_fulfilled_no_flags:
  "list_all (\<lambda>x. snd (snd x) = Resolved Undefined) (responses T) \<Longrightarrow>
     \<not> hadError T \<and> \<not> deadlineReached T"
proof (induction T)
  case Nil
  then show ?case by simp
next
  case (Cons e T)
  then show ?case by (cases e) auto
qed

lemmas machine_defs = exec_def construct_def bind_def bind_signal_def toggle_def process_on_def
  process_off_def removeAllListeners_def default_signals_def addHook_def disconnect_def onExit_def
  abort_def process_exit_def delay_def timer_wins_def hook_error_context_def finish_def report_def
  await_race_def resume_def processSignal_def processErrors_def emit_def log_call_def
  emit_effect_def Let_def completed_def in_flight_def

lemma invoked_simps [simp]:
  "invoked [] = []" "invoked (T @ U) = invoked T @ invoked U"
  "invoked (e # T) = invoked_of e @ invoked T"
  by (simp_all add: invoked_def)

lemma hook_trace_simps [simp]:
  "hook_trace [] = []" "hook_trace (T @ U) = hook_trace T @ hook_trace U"
  "hook_trace (e # T) = (if is_hook_effect e then e # hook_trace T else hook_trace T)"
  by (simp_all add: hook_trace_def)

lemma segments_simps [simp]:
  "segments lg H [] = []" "segments lg H (T @ U) = segments lg H T @ segments lg H U"
  "segments lg H (e # T) = concat (map (segment lg H) (response_of e)) @ segments lg H T"
  by (simp_all add: segments_def)

lemma report_line_hook [simp]:
  "hook_trace (report_line lg n resp) = report_line lg n resp"
  "responses (report_line lg n resp) = []"
  "segments lg' H (report_line lg n resp) = []"
  "invoked (report_line lg n resp) = []"
  by (auto simp add: report_line_def segments_def split: response.splits)

lemma announce_hook [simp]:
  "hook_trace (announce lg n) = announce lg n"
  "responses (announce lg n) = []"
  "segments lg' H (announce lg n) = []"
  "invoked (announce lg n) = []"
  "exits (announce lg n) = []"
  by (auto simp add: announce_def segments_def)

lemma drop_eq_Cons:
  "drop i H = h # hs \<Longrightarrow> i < length H \<and> H ! i = h \<and> drop (Suc i) H = hs"
  by (metis Cons_nth_drop_Suc drop_eq_Nil2 linorder_not_le list.discI list.inject)

lemma loop_struct:
  "entry_struct r st \<Longrightarrow> hs = drop (index r) (handlers st) \<Longrightarrow> inv_struct (loop hs r st)"
proof (induction hs arbitrary: r st)
  case Nil
  then show ?case
    by (auto simp add: entry_struct_def inv_struct_def current_def finish_trace)
next
  case (Cons h hs)
  from Cons.prems(2) have d: "index r < length (handlers st)" "handlers st ! index r = h"
    "drop (Suc (index r)) (handlers st) = hs"
    using drop_eq_Cons [of "index r" "handlers st" h hs] by simp_all
  show ?case
  proof (cases "handler h")
    case (Throws e)
    let ?st3 = "emit_effect (Finished (index r) (clock st) (Rejected e))
                   (emit_effect (Invoked (index r)) (log_call Info None (ProcessingHook (name h)) st))"
    let ?st4 = "snd (report (name h) (Rejected e) r ?st3)"
    let ?r' = "(fst (report (name h) (Rejected e) r ?st3))\<lparr>index := Suc (index r)\<rparr>"
    have "entry_struct ?r' ?st4"
      using Cons.prems(1) d
      by (auto simp add: entry_struct_def segment_def announce_def)
    moreover have "hs = drop (index ?r') (handlers ?st4)"
      using d by simp
    ultimately have "inv_struct (loop hs ?r' ?st4)" by (rule Cons.IH)
    then show ?thesis using Throws by (simp add: Let_def case_prod_beta)
  next
    case ReturnsVoid
    then show ?thesis using Cons.prems(1) d
      by (auto simp add: entry_struct_def inv_struct_def current_def announce_def Let_def await_race_def split: prod.splits)
  next
    case (Returns p)
    then show ?thesis using Cons.prems(1) d
      by (auto simp add: entry_struct_def inv_struct_def current_def announce_def Let_def await_race_def split: prod.splits)
  qed
qed

lemma idle_effect_hook_facts:
  "list_all idle_effect T \<Longrightarrow>
     responses T = [] \<and> hook_trace T = [] \<and> invoked T = [] \<and> AbortFired \<notin> set T"
proof (induction T)
  case Nil
  then show ?case by simp
next
  case (Cons e T)
  then show ?case by (cases e rule: idle_effect.cases) auto
qed

lemma segment_append_handlers:
  "fst x < length H \<Longrightarrow> segment lg (H @ [y]) x = segment lg H x"
  by (simp add: segment_def nth_append)

lemma segments_append_handlers:
  assumes "map fst (responses T) = [0..<length (responses T)]"
    and "length (responses T) \<le> length H"
  shows "segments lg (H @ [y]) T = segments lg H T"
proof -
  have "\<forall>x \<in> set (responses T). fst x < length H"
  proof
    fix x assume "x \<in> set (responses T)"
    then have "fst x \<in> set (map fst (responses T))" by simp
    then have "fst x \<in> set [0..<length (responses T)]" using assms(1) by simp
    then show "fst x < length H" using assms(2) by simp
  qed
  then have "map (segment lg (H @ [y])) (responses T) = map (segment lg H) (responses T)"
    by (intro map_cong refl) (simp add: segment_append_handlers)
  then show ?thesis by (simp only: segments_def)
qed

lemma inv_struct_addHook: "inv_struct st \<Longrightarrow> inv_struct (addHook n h st)"
proof (cases "suspended st")
  case None
  assume "inv_struct st"
  with None show ?thesis
    by (auto simp add: inv_struct_def addHook_def current_def segments_append_handlers)
next
  case (Some a)
  assume "inv_struct st"
  with Some show ?thesis
    by (auto simp add: inv_struct_def addHook_def current_def segments_append_handlers nth_append)
qed

lemma inv_struct_disconnect: "inv_struct st \<Longrightarrow> inv_struct (disconnect st)"
  by (auto simp add: inv_struct_def disconnect_def current_def split: option.splits)

lemma inv_struct_onExit: "inv_struct st \<Longrightarrow> inv_struct (onExit c st)"
  by (auto simp add: inv_struct_def onExit_def current_def split: option.splits)

lemma inv_struct_processSignal:
  assumes "inv_flags st" and "inv_struct st"
  shows "inv_struct (processSignal sig st)"
proof (cases "shuttingDown st")
  case True
  with assms(2) show ?thesis
    by (auto simp add: inv_struct_def processSignal_def current_def split: option.splits)
next
  case False
  let ?st3 = "abort ((log_call Info (Some (SignalCtx sig)) ProcessingSignal st)\<lparr>shuttingDown := True\<rparr>)"
  let ?r = "\<lparr>signal = sig, withError = False, forceExit = False, index = 0,
             globalTimeout = FiresAt (clock ?st3 + delay (shutdownTimeout ?st3))\<rparr>"
  from assms(1) False have idle: "suspended st = None" "list_all idle_effect (trace st)"
    by (simp_all add: inv_flags_def)
  have "entry_struct ?r ?st3"
    using idle(1) idle_effect_hook_facts [OF idle(2)] by (simp add: entry_struct_def segments_def)
  moreover have "handlers ?st3 = drop (index ?r) (handlers ?st3)" by simp
  ultimately have "inv_struct (loop (handlers ?st3) ?r ?st3)" by (rule loop_struct)
  with False show ?thesis by (simp add: processSignal_def Let_def)
qed

lemma inv_struct_log: "inv_struct st \<Longrightarrow> \<not> is_hook_effect (Log lv c m) \<Longrightarrow> inv_struct (log_call lv c m st)"
  by (auto simp add: inv_struct_def current_def split: option.splits)

lemma inv_struct_processErrors:
  assumes "inv_flags st" and "inv_struct st"
  shows "inv_struct (processErrors v st)"
proof -
  let ?st1 = "log_call Error (Some (if typeof v = ''object'' then Raw v else Wrapped v)) Uncaught st"
  have "inv_flags ?st1"
    using assms(1) by (auto simp add: inv_flags_def split: option.splits)
  moreover have "inv_struct ?st1"
    using assms(2) by (rule inv_struct_log) simp
  ultimately show ?thesis
    unfolding processErrors_def Let_def by (rule inv_struct_processSignal)
qed

lemma inv_struct_resume: "inv_struct st \<Longrightarrow> inv_struct (resume st)"
proof (cases "suspended st")
  case None
  assume "inv_struct st"
  with None show ?thesis by (simp add: resume_def)
next
  case (Some a)
  assume inv: "inv_struct st"
  let ?st2 = "emit_effect (Finished (index (frame a)) (settlesAt a) (outcome a))
               (st\<lparr>suspended := None, clock := settlesAt a\<rparr>)"
  let ?rep = "report (hookName a) (outcome a) (frame a) ?st2"
  let ?r2 = "(fst ?rep)\<lparr>index := Suc (index (frame a)),
               globalTimeout := (if outcome a = Resolved (Text ''global-timeout'') then Fired
                                 else globalTimeout (frame a))\<rparr>"
  have "entry_struct ?r2 (snd ?rep)"
    using inv Some by (auto simp add: inv_struct_def entry_struct_def current_def segment_def)
  moreover have "drop (index ?r2) (handlers (snd ?rep)) = drop (index ?r2) (handlers (snd ?rep))" ..
  ultimately have "inv_struct (loop (drop (index ?r2) (handlers (snd ?rep))) ?r2 (snd ?rep))"
    by (rule loop_struct)
  with Some show ?thesis by (simp add: resume_def Let_def case_prod_beta)
qed

lemma loop_race:
  "suspended st = None \<Longrightarrow> hs = drop (index r) (handlers st) \<Longrightarrow> inv_race (loop hs r st)"
proof (induction hs arbitrary: r st)
  case Nil
  then show ?case by (simp add: inv_race_def)
next
  case (Cons h hs)
  from Cons.prems(2) have d: "index r < length (handlers st)" "handlers st ! index r = h"
    "drop (Suc (index r)) (handlers st) = hs"
    using drop_eq_Cons [of "index r" "handlers st" h hs] by simp_all
  show ?case
  proof (cases "handler h")
    case (Throws e)
    let ?st3 = "emit_effect (Finished (index r) (clock st) (Rejected e))
                   (emit_effect (Invoked (index r)) (log_call Info None (ProcessingHook (name h)) st))"
    let ?st4 = "snd (report (name h) (Rejected e) r ?st3)"
    let ?r' = "(fst (report (name h) (Rejected e) r ?st3))\<lparr>index := Suc (index r)\<rparr>"
    have "suspended ?st4 = None" using Cons.prems(1) by simp
    moreover have "hs = drop (index ?r') (handlers ?st4)" using d by simp
    ultimately have "inv_race (loop hs ?r' ?st4)" by (rule Cons.IH)
    then show ?thesis using Throws by (simp add: Let_def case_prod_beta)
  next
    case ReturnsVoid
    then show ?thesis using d
      by (simp add: inv_race_def Let_def await_race_def split: prod.splits)
  next
    case (Returns p)
    then show ?thesis using d
      by (simp add: inv_race_def Let_def await_race_def split: prod.splits)
  qed
qed

lemma inv_race_addHook: "inv_race st \<Longrightarrow> inv_race (addHook n h st)"
  by (auto simp add: inv_race_def addHook_def nth_append split: option.splits)

lemma inv_race_disconnect: "inv_race st \<Longrightarrow> inv_race (disconnect st)"
  by (auto simp add: inv_race_def disconnect_def split: option.splits)

lemma inv_race_log: "inv_race st \<Longrightarrow> inv_race (log_call lv c m st)"
  by (auto simp add: inv_race_def split: option.splits)

lemma inv_race_processSignal:
  assumes "inv_flags st" and "inv_race st"
  shows "inv_race (processSignal sig st)"
proof (cases "shuttingDown st")
  case True
  with assms(2) show ?thesis by (simp add: processSignal_def inv_race_log)
next
  case False
  let ?st3 = "abort ((log_call Info (Some (SignalCtx sig)) ProcessingSignal st)\<lparr>shuttingDown := True\<rparr>)"
  let ?r = "\<lparr>signal = sig, withError = False, forceExit = False, index = 0,
             globalTimeout = FiresAt (clock ?st3 + delay (shutdownTimeout ?st3))\<rparr>"
  from assms(1) False have "suspended ?st3 = None" by (simp add: inv_flags_def)
  moreover have "handlers ?st3 = drop (index ?r) (handlers ?st3)" by simp
  ultimately have "inv_race (loop (handlers ?st3) ?r ?st3)" by (rule loop_race)
  with False show ?thesis by (simp add: processSignal_def Let_def)
qed

lemma inv_flags_log_Uncaught:
  "inv_flags st \<Longrightarrow> inv_flags (log_call Error c Uncaught st)"
  by (auto simp add: inv_flags_def split: option.splits)

lemma inv_race_processErrors:
  assumes "inv_flags st" and "inv_race st"
  shows "inv_race (processErrors v st)"
  unfolding processErrors_def Let_def
  by (rule inv_race_processSignal) (simp_all add: assms inv_flags_log_Uncaught inv_race_log)

lemma inv_race_resume: "inv_race (resume st)"
proof (cases "suspended st")
  case None
  then show ?thesis by (simp add: resume_def inv_race_def)
next
  case (Some a)
  let ?st2 = "emit_effect (Finished (index (frame a)) (settlesAt a) (outcome a))
               (st\<lparr>suspended := None, clock := settlesAt a\<rparr>)"
  let ?rep = "report (hookName a) (outcome a) (frame a) ?st2"
  let ?r2 = "(fst ?rep)\<lparr>index := Suc (index (frame a)),
               globalTimeout := (if outcome a = Resolved (Text ''global-timeout'') then Fired
                                 else globalTimeout (frame a))\<rparr>"
  have "suspended (snd ?rep) = None" by simp
  moreover have "drop (index ?r2) (handlers (snd ?rep)) = drop (index ?r2) (handlers (snd ?rep))" ..
  ultimately have "inv_race (loop (drop (index ?r2) (handlers (snd ?rep))) ?r2 (snd ?rep))"
    by (rule loop_race)
  with Some show ?thesis by (simp add: resume_def Let_def case_prod_beta)
qed

lemma inv_race_onExit: "inv_race st \<Longrightarrow> inv_race (onExit c st)"
  by (simp add: onExit_def inv_race_log)

lemma invariant_call: "invariant st \<Longrightarrow> invariant (call l arg st)"
  by (cases l)
    (simp_all add: invariant_def inv_flags_processSignal inv_flags_processErrors inv_flags_onExit
      inv_struct_processSignal inv_struct_processErrors inv_struct_onExit
      inv_race_processSignal inv_race_processErrors inv_race_onExit)

lemma invariant_emit: "invariant st \<Longrightarrow> invariant (emit ev arg st)"
  unfolding emit_def by (rule fold_invariant) (simp_all add: invariant_call)

lemma invariant_step: "invariant st \<Longrightarrow> invariant (step i st)"
proof (cases i)
  case (AddHook n h)
  assume "invariant st"
  with AddHook show ?thesis
    by (simp add: invariant_def inv_flags_addHook inv_struct_addHook inv_race_addHook)
next
  case Disconnect
  assume "invariant st"
  with Disconnect show ?thesis
    by (simp add: invariant_def inv_flags_disconnect inv_struct_disconnect inv_race_disconnect)
next
  case (Emit ev arg)
  assume "invariant st"
  with Emit show ?thesis by (simp add: invariant_emit)
next
  case Resume
  assume "invariant st"
  with Resume show ?thesis
    by (simp add: invariant_def inv_flags_resume inv_struct_resume inv_race_resume)
qed

lemma invariant_construct: "invariant (construct opts ls now ctl)"
  by (simp add: invariant_def inv_flags_construct)
     (simp add: inv_struct_def inv_race_def current_def construct_def)

lemma invariant_exec: "invariant st \<Longrightarrow> invariant (exec ins st)"
  unfolding exec_def by (rule fold_invariant) (simp_all add: invariant_step)

lemma reachable_invariant: "invariant (exec ins (construct opts ls now ctl))"
  by (rule invariant_exec) (rule invariant_construct)

lemma processSignal_fields [simp]:
  "handlers (processSignal sig st) = handlers st"
  "signals (processSignal sig st) = signals st"
  "logger (processSignal sig st) = logger st"
  "perHookTimeout (processSignal sig st) = perHookTimeout st"
  "shutdownTimeout (processSignal sig st) = shutdownTimeout st"
  "listeners (processSignal sig st) = listeners st"
  "clock (processSignal sig st) = clock st"
  "shuttingDown (processSignal sig st) = True"
  "ident (abortController (processSignal sig st)) = ident (abortController st)"
  by (simp_all add: processSignal_def Let_def)

lemma processErrors_fields [simp]:
  "handlers (processErrors v st) = handlers st"
  "signals (processErrors v st) = signals st"
  "logger (processErrors v st) = logger st"
  "perHookTimeout (processErrors v st) = perHookTimeout st"
  "shutdownTimeout (processErrors v st) = shutdownTimeout st"
  "listeners (processErrors v st) = listeners st"
  "clock (processErrors v st) = clock st"
  "shuttingDown (processErrors v st) = True"
  "ident (abortController (processErrors v st)) = ident (abortController st)"
  by (simp_all add: processErrors_def Let_def)

lemma resume_fields [simp]:
  "handlers (resume st) = handlers st"
  "signals (resume st) = signals st"
  "logger (resume st) = logger st"
  "perHookTimeout (resume st) = perHookTimeout st"
  "shutdownTimeout (resume st) = shutdownTimeout st"
  "listeners (resume st) = listeners st"
  "shuttingDown (resume st) = shuttingDown st"
  "abortController (resume st) = abortController st"
  by (simp_all add: resume_def Let_def case_prod_beta split: option.splits)

lemma addHook_fields [simp]:
  "handlers (addHook n h st) = handlers st @ [\<lparr>name = n, handler = h\<rparr>]"
  "signals (addHook n h st) = signals st"
  "logger (addHook n h st) = logger st"
  "perHookTimeout (addHook n h st) = perHookTimeout st"
  "shutdownTimeout (addHook n h st) = shutdownTimeout st"
  "listeners (addHook n h st) = listeners st"
  "clock (addHook n h st) = clock st"
  "shuttingDown (addHook n h st) = shuttingDown st"
  "abortController (addHook n h st) = abortController st"
  "suspended (addHook n h st) = suspended st"
  "trace (addHook n h st) = trace st @ (if logger st then [Log Info None (Registered n)] else [])"
  by (simp_all add: addHook_def Let_def)

lemma disconnect_fields [simp]:
  "handlers (disconnect st) = handlers st"
  "signals (disconnect st) = signals st"
  "logger (disconnect st) = logger st"
  "perHookTimeout (disconnect st) = perHookTimeout st"
  "shutdownTimeout (disconnect st) = shutdownTimeout st"
  "clock (disconnect st) = clock st"
  "shuttingDown (disconnect st) = shuttingDown st"
  "abortController (disconnect st) = abortController st"
  "suspended (disconnect st) = suspended st"
  "trace (disconnect st) = trace st"
  by (simp_all add: disconnect_def)

lemma onExit_fields [simp]:
  "handlers (onExit c st) = handlers st"
  "signals (onExit c st) = signals st"
  "logger (onExit c st) = logger st"
  "perHookTimeout (onExit c st) = perHookTimeout st"
  "shutdownTimeout (onExit c st) = shutdownTimeout st"
  "listeners (onExit c st) = listeners st"
  "clock (onExit c st) = clock st"
  "shuttingDown (onExit c st) = shuttingDown st"
  "abortController (onExit c st) = abortController st"
  "suspended (onExit c st) = suspended st"
  "trace (onExit c st) = trace st @ (if logger st then [Log Info None (Exiting c)] else [])"
  by (simp_all add: onExit_def)

lemma call_fields [simp]:
  "handlers (call l arg st) = handlers st"
  "signals (call l arg st) = signals st"
  "logger (call l arg st) = logger st"
  "perHookTimeout (call l arg st) = perHookTimeout st"
  "shutdownTimeout (call l arg st) = shutdownTimeout st"
  "listeners (call l arg st) = listeners st"
  "clock (call l arg st) = clock st"
  "ident (abortController (call l arg st)) = ident (abortController st)"
  by (cases l; simp)+

lemma call_shuttingDown: "shuttingDown st \<Longrightarrow> shuttingDown (call l arg st)"
  by (cases l) simp_all

lemma fold_call_fields [simp]:
  "handlers (fold (\<lambda>l. call l arg) xs st) = handlers st"
  "signals (fold (\<lambda>l. call l arg) xs st) = signals st"
  "logger (fold (\<lambda>l. call l arg) xs st) = logger st"
  "perHookTimeout (fold (\<lambda>l. call l arg) xs st) = perHookTimeout st"
  "shutdownTimeout (fold (\<lambda>l. call l arg) xs st) = shutdownTimeout st"
  "listeners (fold (\<lambda>l. call l arg) xs st) = listeners st"
  "clock (fold (\<lambda>l. call l arg) xs st) = clock st"
  "ident (abortController (fold (\<lambda>l. call l arg) xs st)) = ident (abortController st)"
  by (induction xs arbitrary: st; simp)+

lemma emit_fields [simp]:
  "handlers (emit ev arg st) = handlers st"
  "signals (emit ev arg st) = signals st"
  "logger (emit ev arg st) = logger st"
  "perHookTimeout (emit ev arg st) = perHookTimeout st"
  "shutdownTimeout (emit ev arg st) = shutdownTimeout st"
  "listeners (emit ev arg st) = listeners st"
  "clock (emit ev arg st) = clock st"
  "ident (abortController (emit ev arg st)) = ident (abortController st)"
  by (simp_all add: emit_def)

lemma emit_shuttingDown: "shuttingDown st \<Longrightarrow> shuttingDown (emit ev arg st)"
  unfolding emit_def by (rule fold_invariant) (simp_all add: call_shuttingDown)

lemma step_fields [simp]:
  "signals (step i st) = signals st"
  "logger (step i st) = logger st"
  "perHookTimeout (step i st) = perHookTimeout st"
  "shutdownTimeout (step i st) = shutdownTimeout st"
  "ident (abortController (step i st)) = ident (abortController st)"
  by (cases i; simp)+

lemma step_shuttingDown: "shuttingDown st \<Longrightarrow> shuttingDown (step i st)"
  by (cases i) (simp_all add: emit_shuttingDown)

lemma exec_fields [simp]:
  "signals (exec ins st) = signals st"
  "logger (exec ins st) = logger st"
  "perHookTimeout (exec ins st) = perHookTimeout st"
  "shutdownTimeout (exec ins st) = shutdownTimeout st"
  "ident (abortController (exec ins st)) = ident (abortController st)"
  unfolding exec_def by (induction ins arbitrary: st; simp)+

lemma exec_shuttingDown: "shuttingDown st \<Longrightarrow> shuttingDown (exec ins st)"
  unfolding exec_def by (rule fold_invariant) (simp_all add: step_shuttingDown)

lemma exec_append: "exec (xs @ ys) st = exec ys (exec xs st)"
  by (simp add: exec_def)

text \<open>Every operation only adds to the trace.\<close>

lemma loop_extends: "\<exists>X. trace (loop hs r st) = trace st @ X"
proof (induction hs arbitrary: r st)
  case Nil
  then show ?case by (simp add: finish_trace)
next
  case (Cons h hs)
  show ?case
  proof (cases "handler h")
    case (Throws e)
    let ?st3 = "emit_effect (Finished (index r) (clock st) (Rejected e))
                   (emit_effect (Invoked (index r)) (log_call Info None (ProcessingHook (name h)) st))"
    let ?st4 = "snd (report (name h) (Rejected e) r ?st3)"
    let ?r' = "(fst (report (name h) (Rejected e) r ?st3))\<lparr>index := Suc (index r)\<rparr>"
    obtain X where "trace (loop hs ?r' ?st4) = trace ?st4 @ X" using Cons.IH by blast
    then show ?thesis using Throws by (simp add: Let_def case_prod_beta)
  next
    case ReturnsVoid
    then show ?thesis by (simp add: Let_def)
  next
    case (Returns p)
    then show ?thesis by (simp add: Let_def)
  qed
qed

lemma resume_extends: "\<exists>X. trace (resume st) = trace st @ X"
proof (cases "suspended st")
  case None
  then show ?thesis by (simp add: resume_def)
next
  case (Some a)
  let ?st2 = "emit_effect (Finished (index (frame a)) (settlesAt a) (outcome a))
               (st\<lparr>suspended := None, clock := settlesAt a\<rparr>)"
  let ?rep = "report (hookName a) (outcome a) (frame a) ?st2"
  let ?r2 = "(fst ?rep)\<lparr>index := Suc (index (frame a)),
               globalTimeout := (if outcome a = Resolved (Text ''global-timeout'') then Fired
                                 else globalTimeout (frame a))\<rparr>"
  obtain X where "trace (loop (drop (index ?r2) (handlers (snd ?rep))) ?r2 (snd ?rep)) = trace (snd ?rep) @ X"
    using loop_extends by blast
  with Some show ?thesis by (simp add: resume_def Let_def case_prod_beta)
qed

lemma processSignal_extends: "\<exists>X. trace (processSignal sig st) = trace st @ X"
proof (cases "shuttingDown st")
  case True
  then show ?thesis by (simp add: processSignal_def)
next
  case False
  let ?st3 = "abort ((log_call Info (Some (SignalCtx sig)) ProcessingSignal st)\<lparr>shuttingDown := True\<rparr>)"
  let ?r = "\<lparr>signal = sig, withError = False, forceExit = False, index = 0,
             globalTimeout = FiresAt (clock ?st3 + delay (shutdownTimeout ?st3))\<rparr>"
  obtain X where "trace (loop (handlers ?st3) ?r ?st3) = trace ?st3 @ X"
    using loop_extends by blast
  with False show ?thesis by (simp add: processSignal_def Let_def)
qed

lemma processErrors_extends: "\<exists>X. trace (processErrors v st) = trace st @ X"
proof -
  let ?st1 = "log_call Error (Some (if typeof v = ''object'' then Raw v else Wrapped v)) Uncaught st"
  obtain X where "trace (processSignal ''SIGUSR2'' ?st1) = trace ?st1 @ X"
    using processSignal_extends by blast
  then show ?thesis by (simp add: processErrors_def Let_def)
qed

lemma call_extends: "\<exists>X. trace (call l arg st) = trace st @ X"
  by (cases l) (simp_all add: processSignal_extends processErrors_extends)

lemma emit_extends: "\<exists>X. trace (emit ev arg st) = trace st @ X"
proof -
  have "\<exists>X. trace (fold (\<lambda>l. call l arg) xs st) = trace st @ X" for xs
  proof (induction xs arbitrary: st)
    case Nil
    then show ?case by simp
  next
    case (Cons l xs)
    obtain X where x: "trace (call l arg st) = trace st @ X" using call_extends by blast
    obtain Y where "trace (fold (\<lambda>l. call l arg) xs (call l arg st)) = trace (call l arg st) @ Y"
      using Cons.IH by blast
    with x show ?case by simp
  qed
  then show ?thesis by (simp add: emit_def)
qed

lemma step_extends: "\<exists>X. trace (step i st) = trace st @ X"
  by (cases i) (simp_all add: emit_extends resume_extends)

lemma exec_extends: "\<exists>X. trace (exec ins st) = trace st @ X"
proof (induction ins arbitrary: st)
  case Nil
  then show ?case by (simp add: exec_def)
next
  case (Cons i ins)
  obtain X where x: "trace (step i st) = trace st @ X" using step_extends by blast
  obtain Y where "trace (exec ins (step i st)) = trace (step i st) @ Y" using Cons.IH by blast
  with x show ?case by (simp add: exec_def)
qed

lemma invoked_hook_trace: "invoked (hook_trace T) = invoked T"
proof (induction T)
  case Nil
  then show ?case by simp
next
  case (Cons e T)
  then show ?case by (cases e rule: is_hook_effect.cases) simp_all
qed

lemma invoked_segments: "invoked (segments lg H T) = map fst (responses T)"
proof -
  have "invoked (concat (map (segment lg H) R)) = map fst R" for R
    by (induction R) (simp_all add: segment_def)
  then show ?thesis by (simp add: segments_def)
qed

lemma invoked_reachable:
  assumes "inv_struct st"
  shows "invoked (trace st) =
     [0..<length (responses (trace st)) + (if suspended st = None then 0 else 1)]"
proof -
  have "invoked (trace st) = invoked (segments (logger st) (handlers st) (trace st) @ current st)"
    using assms invoked_hook_trace [of "trace st"] by (simp add: inv_struct_def)
  also have "\<dots> = map fst (responses (trace st)) @ invoked (current st)"
    by (simp add: invoked_segments)
  also have "\<dots> = [0..<length (responses (trace st)) + (if suspended st = None then 0 else 1)]"
    using assms by (auto simp add: inv_struct_def current_def split: option.splits)
  finally show ?thesis .
qed

lemma hook_trace_takeWhile: "hook_trace T = [] \<Longrightarrow> hook_trace (takeWhile P T) = []"
  by (induction T) (auto split: if_splits)

lemma abort_first_extend:
  assumes "AbortFired \<in> set T" and "abort_first T"
  shows "abort_first (T @ X)"
  using assms by (simp add: abort_first_def)

lemma abort_first_idle: "list_all idle_effect T \<Longrightarrow> abort_first T"
  using idle_effect_hook_facts [of T] by (simp add: abort_first_def hook_trace_takeWhile)

lemma shutting_has_abort: "inv_flags st \<Longrightarrow> shuttingDown st \<Longrightarrow> AbortFired \<in> set (trace st)"
  by (metis count_list_0_iff inv_flags_def zero_neq_one)

lemma processSignal_start:
  assumes "\<not> shuttingDown st" and "\<not> aborted (abortController st)"
  shows "\<exists>X. trace (processSignal sig st) =
           trace st @ (if logger st then [Log Info (Some (SignalCtx sig)) ProcessingSignal] else [])
           @ [AbortFired] @ X"
proof -
  let ?st3 = "abort ((log_call Info (Some (SignalCtx sig)) ProcessingSignal st)\<lparr>shuttingDown := True\<rparr>)"
  let ?r = "\<lparr>signal = sig, withError = False, forceExit = False, index = 0,
             globalTimeout = FiresAt (clock ?st3 + delay (shutdownTimeout ?st3))\<rparr>"
  obtain X where "trace (loop (handlers ?st3) ?r ?st3) = trace ?st3 @ X"
    using loop_extends by blast
  with assms show ?thesis by (simp add: processSignal_def Let_def)
qed

lemma abort_first_processSignal:
  assumes "inv_flags st" and "abort_first (trace st)"
  shows "abort_first (trace (processSignal sig st))"
proof (cases "shuttingDown st")
  case True
  obtain X where "trace (processSignal sig st) = trace st @ X"
    using processSignal_extends by blast
  with assms True show ?thesis by (simp add: abort_first_extend shutting_has_abort)
next
  case False
  with assms(1) have idle: "\<not> aborted (abortController st)" "list_all idle_effect (trace st)"
    by (simp_all add: inv_flags_def)
  obtain X where x: "trace (processSignal sig st) =
           trace st @ (if logger st then [Log Info (Some (SignalCtx sig)) ProcessingSignal] else [])
           @ [AbortFired] @ X"
    using processSignal_start [OF False idle(1)] by blast
  have na: "e \<noteq> AbortFired" if "e \<in> set (trace st)" for e
    using that idle_effect_hook_facts [OF idle(2)] by auto
  have "takeWhile (\<lambda>e. e \<noteq> AbortFired) (trace (processSignal sig st)) =
          trace st @ (if logger st then [Log Info (Some (SignalCtx sig)) ProcessingSignal] else [])"
    by (simp add: x na)
  then show ?thesis
    using idle_effect_hook_facts [OF idle(2)] by (simp add: abort_first_def)
qed

lemma abort_first_log:
  assumes "inv_flags st" and "abort_first (trace st)" and "\<not> is_hook_effect (Log lv c m)"
  shows "abort_first (trace (log_call lv c m st))"
proof (cases "shuttingDown st")
  case True
  with assms show ?thesis by (simp add: abort_first_extend shutting_has_abort)
next
  case False
  with assms(1) have idle: "list_all idle_effect (trace st)"
    by (simp add: inv_flags_def)
  have na: "e \<noteq> AbortFired" if "e \<in> set (trace st)" for e
    using that idle_effect_hook_facts [OF idle] by auto
  have "takeWhile (\<lambda>e. e \<noteq> AbortFired) (trace st @ [Log lv c m]) = trace st @ [Log lv c m]"
    by (simp add: na)
  then show ?thesis
    using assms(2,3) idle_effect_hook_facts [OF idle] by (simp add: abort_first_def)
qed

lemma abort_first_processErrors:
  assumes "inv_flags st" and "abort_first (trace st)"
  shows "abort_first (trace (processErrors v st))"
proof -
  let ?c = "Some (if typeof v = ''object'' then Raw v else Wrapped v)"
  have "inv_flags (log_call Error ?c Uncaught st)"
    using assms(1) by (rule inv_flags_log_Uncaught)
  moreover have "abort_first (trace (log_call Error ?c Uncaught st))"
    using assms by (rule abort_first_log) simp
  ultimately show ?thesis
    unfolding processErrors_def Let_def by (rule abort_first_processSignal)
qed

lemma invariant2_call:
  assumes "invariant2 st"
  shows "invariant2 (call l arg st)"
proof -
  from assms have i: "invariant st" "inv_flags st" "abort_first (trace st)"
    by (simp_all add: invariant2_def invariant_def)
  have "abort_first (trace (call l arg st))"
  proof (cases l)
    case ProcessErrors
    then show ?thesis using i by (simp add: abort_first_processErrors)
  next
    case (ProcessSignal s)
    then show ?thesis using i by (simp add: abort_first_processSignal)
  next
    case OnExit
    have "abort_first (trace (log_call Info None (Exiting arg) st))"
      using i(2,3) by (rule abort_first_log) simp
    with OnExit show ?thesis by (simp add: onExit_def)
  next
    case (Foreign k)
    then show ?thesis using i by simp
  qed
  with i(1) show ?thesis by (simp add: invariant2_def invariant_call)
qed

lemma invariant2_step: "invariant2 st \<Longrightarrow> invariant2 (step i st)"
proof (cases i)
  case (AddHook n h)
  assume a: "invariant2 st"
  then have "abort_first (trace (log_call Info None (Registered n) st))"
    by (intro abort_first_log) (simp_all add: invariant2_def invariant_def)
  with a AddHook show ?thesis
    using invariant_step [of st i] by (simp add: invariant2_def)
next
  case Disconnect
  assume "invariant2 st"
  with Disconnect show ?thesis
    using invariant_step [of st i] by (simp add: invariant2_def)
next
  case (Emit ev arg)
  assume "invariant2 st"
  then have "invariant2 (emit ev arg st)"
    unfolding emit_def by (rule fold_invariant) (simp add: invariant2_call)
  with Emit show ?thesis by simp
next
  case Resume
  assume a: "invariant2 st"
  show ?thesis
  proof (cases "suspended st")
    case None
    with a Resume show ?thesis by (simp add: resume_def)
  next
    case (Some x)
    with a have sd: "shuttingDown st" by (simp add: invariant2_def invariant_def inv_flags_def)
    obtain X where "trace (resume st) = trace st @ X" using resume_extends by blast
    with a sd Resume show ?thesis
      using invariant_step [of st i]
      by (simp add: invariant2_def invariant_def abort_first_extend shutting_has_abort)
  qed
qed

lemma invariant2_construct: "invariant2 (construct opts ls now ctl)"
  by (simp add: invariant2_def invariant_construct) (simp add: abort_first_def construct_def)

lemma reachable_invariant2: "invariant2 (exec ins (construct opts ls now ctl))"
  unfolding exec_def by (rule fold_invariant) (simp_all add: invariant2_construct invariant2_step)

lemma bind_signal_listeners [simp]:
  "listeners (bind_signal on s st) =
     (if on then listeners st @ [(s, ProcessSignal s)] else filter (\<lambda>el. fst el \<noteq> s) (listeners st))"
  by (simp add: bind_signal_def process_on_def removeAllListeners_def)

lemma fold_unbind_listeners:
  "listeners (fold (bind_signal False) xs st) = filter (\<lambda>el. fst el \<notin> set xs) (listeners st)"
  by (induction xs arbitrary: st) (simp_all add: conj_commute)

lemma fold_bind_listeners:
  "listeners (fold (bind_signal True) xs st) = listeners st @ map (\<lambda>s. (s, ProcessSignal s)) xs"
  by (induction xs arbitrary: st) simp_all

lemma listeners_disconnect:
  "listeners (disconnect st) = released (signals st) (listeners st)"
  by (simp add: disconnect_def bind_def Let_def toggle_def process_off_def fold_unbind_listeners
      released_def)

lemma listeners_construct:
  "listeners (construct opts ls now ctl) =
     ls @ [(''uncaughtException'', ProcessErrors), (''unhandledRejection'', ProcessErrors)]
        @ map (\<lambda>s. (s, ProcessSignal s)) (signals (construct opts ls now ctl))
        @ [(''exit'', OnExit)]"
  by (simp add: construct_def bind_def Let_def toggle_def process_on_def fold_bind_listeners)

lemma bind_signal_record: "bind_signal on s st = st\<lparr>listeners := listeners (bind_signal on s st)\<rparr>"
  by (simp add: bind_signal_def process_on_def removeAllListeners_def)

lemma fold_bind_signal_record:
  "fold (bind_signal on) xs st = st\<lparr>listeners := listeners (fold (bind_signal on) xs st)\<rparr>"
proof (induction xs arbitrary: st)
  case Nil
  then show ?case by simp
next
  case (Cons x xs)
  have "fold (bind_signal on) (x # xs) st
          = (bind_signal on x st)\<lparr>listeners := listeners (fold (bind_signal on) xs (bind_signal on x st))\<rparr>"
    using Cons.IH [of "bind_signal on x st"] by simp
  also have "\<dots> = st\<lparr>listeners := listeners (fold (bind_signal on) (x # xs) st)\<rparr>"
    by (subst bind_signal_record) simp
  finally show ?case .
qed

lemma disconnect_record: "disconnect st = st\<lparr>listeners := released (signals st) (listeners st)\<rparr>"
proof -
  have "disconnect st = st\<lparr>listeners := listeners (disconnect st)\<rparr>"
    unfolding disconnect_def bind_def Let_def toggle_def process_off_def
    by (subst fold_bind_signal_record) simp
  then show ?thesis by (simp add: listeners_disconnect)
qed

lemma count_list_remove1:
  "count_list (remove1 x xs) y = count_list xs y - (if x = y \<and> x \<in> set xs then 1 else 0)"
  by (induction xs) auto

lemma count_list_remove1_le: "count_list (remove1 x xs) y \<le> count_list xs y"
  by (simp add: count_list_remove1)

lemma count_list_filter_le: "count_list (filter P xs) y \<le> count_list xs y"
  by (induction xs) auto

lemma once_removed: "count_list xs x \<le> 1 \<Longrightarrow> x \<notin> set (remove1 x xs)"
proof -
  assume "count_list xs x \<le> 1"
  then have "count_list (remove1 x xs) x = 0"
    by (cases "x \<in> set xs") (simp_all add: count_list_remove1)
  then show ?thesis using count_list_0_iff by fastforce
qed

lemma mem_remove1D: "el \<in> set (remove1 x xs) \<Longrightarrow> el \<in> set xs"
  by (meson set_remove1_subset subsetD)

lemma set_released: "set (released sigs L) \<subseteq> set L"
proof
  fix el assume "el \<in> set (released sigs L)"
  then have "el \<in> set (remove1 (''unhandledRejection'', ProcessErrors)
         (remove1 (''uncaughtException'', ProcessErrors) (rev L)))"
    unfolding released_def by (auto dest!: mem_remove1D)
  then show "el \<in> set L"
    by (auto dest!: mem_remove1D)
qed

lemma released_no_signal: "el \<in> set (released sigs L) \<Longrightarrow> fst el \<notin> set sigs"
proof -
  assume "el \<in> set (released sigs L)"
  then have "el \<in> set (filter (\<lambda>el. fst el \<notin> set sigs)
       (rev (remove1 (''unhandledRejection'', ProcessErrors)
         (remove1 (''uncaughtException'', ProcessErrors) (rev L)))))"
    unfolding released_def by (auto dest!: mem_remove1D)
  then show ?thesis by simp
qed

lemma released_uncaught:
  assumes "count_list L (''uncaughtException'', ProcessErrors) \<le> 1"
  shows "(''uncaughtException'', ProcessErrors) \<notin> set (released sigs L)"
proof -
  let ?a = "(''uncaughtException'', ProcessErrors)"
  have "?a \<notin> set (remove1 ?a (rev L))"
    using assms by (intro once_removed) simp
  then show ?thesis
    unfolding released_def by (auto dest!: mem_remove1D)
qed

lemma released_unhandled:
  assumes "count_list L (''unhandledRejection'', ProcessErrors) \<le> 1"
  shows "(''unhandledRejection'', ProcessErrors) \<notin> set (released sigs L)"
proof -
  let ?a = "(''uncaughtException'', ProcessErrors)" and ?b = "(''unhandledRejection'', ProcessErrors)"
  have "count_list (remove1 ?a (rev L)) ?b \<le> 1"
    using assms le_trans [OF count_list_remove1_le [of ?a "rev L" ?b]] by simp
  then have "?b \<notin> set (remove1 ?b (remove1 ?a (rev L)))"
    by (rule once_removed)
  then show ?thesis
    unfolding released_def by (auto dest!: mem_remove1D)
qed

lemma released_exit:
  assumes "count_list L (''exit'', OnExit) \<le> 1"
  shows "(''exit'', OnExit) \<notin> set (released sigs L)"
proof -
  let ?a = "(''uncaughtException'', ProcessErrors)" and ?b = "(''unhandledRejection'', ProcessErrors)"
  let ?z = "(''exit'', OnExit)"
  let ?M = "rev (filter (\<lambda>el. fst el \<notin> set sigs) (rev (remove1 ?b (remove1 ?a (rev L)))))"
  have "count_list ?M ?z \<le> count_list (remove1 ?b (remove1 ?a (rev L))) ?z"
    using count_list_filter_le [of _ "rev (remove1 ?b (remove1 ?a (rev L)))" ?z] by simp
  also have "\<dots> \<le> count_list (remove1 ?a (rev L)) ?z" by (rule count_list_remove1_le)
  also have "\<dots> \<le> count_list (rev L) ?z" by (rule count_list_remove1_le)
  finally have "count_list ?M ?z \<le> 1" using assms by simp
  then have "?z \<notin> set (remove1 ?z ?M)" by (rule once_removed)
  then show ?thesis by (simp add: released_def)
qed

lemma released_foreign:
  assumes "count_list L (''uncaughtException'', ProcessErrors) \<le> 1"
    and "count_list L (''unhandledRejection'', ProcessErrors) \<le> 1"
    and "count_list L (''exit'', OnExit) \<le> 1"
    and "list_all (well_placed sigs) L"
  shows "list_all (\<lambda>el. \<not> own (snd el)) (released sigs L)"
proof -
  have "\<not> own (snd el)" if "el \<in> set (released sigs L)" for el
  proof -
    from that have inL: "el \<in> set L" using set_released by blast
    with assms(4) have wp: "well_placed sigs el" by (simp add: list_all_iff)
    obtain ev l where el: "el = (ev, l)" by (cases el)
    show ?thesis
    proof (cases l)
      case ProcessErrors
      with wp el have "el = (''uncaughtException'', ProcessErrors) \<or> el = (''unhandledRejection'', ProcessErrors)"
        by simp
      with that released_uncaught [OF assms(1)] released_unhandled [OF assms(2)]
      show ?thesis by blast
    next
      case (ProcessSignal s)
      with wp el have "fst el \<in> set sigs" by simp
      with released_no_signal [OF that] show ?thesis by simp
    next
      case OnExit
      with wp el have "el = (''exit'', OnExit)" by simp
      with that released_exit [OF assms(3)] show ?thesis by blast
    next
      case (Foreign k)
      with el show ?thesis by simp
    qed
  qed
  then show ?thesis by (simp add: list_all_iff)
qed

lemma released_idem:
  assumes "list_all (\<lambda>el. \<not> own (snd el)) L" and "list_all (\<lambda>el. fst el \<notin> set sigs) L"
  shows "released sigs L = L"
proof -
  have n: "(''uncaughtException'', ProcessErrors) \<notin> set L"
    "(''unhandledRejection'', ProcessErrors) \<notin> set L" "(''exit'', OnExit) \<notin> set L"
    using assms(1) by (auto simp add: list_all_iff)
  have f: "filter (\<lambda>el. fst el \<notin> set sigs) L = L"
    using assms(2) by (simp add: list_all_iff)
  show ?thesis
    using n by (simp add: released_def remove1_idem f)
qed

lemma foreign_inv_listeners:
  assumes "list_all (\<lambda>el. \<not> own (snd el)) (listeners st)"
  shows "inv_listeners st"
proof -
  have "well_placed (signals st) el" if "el \<in> set (listeners st)" for el
  proof -
    from that assms have "\<not> own (snd el)" by (simp add: list_all_iff)
    then show ?thesis by (cases el; cases "snd el") simp_all
  qed
  moreover have "x \<notin> set (listeners st)" if "own (snd x)" for x
    using that assms by (auto simp add: list_all_iff)
  ultimately show ?thesis
    by (simp add: inv_listeners_def list_all_iff)
qed

lemma inv_listeners_disconnect:
  assumes "inv_listeners st"
  shows "list_all (\<lambda>el. \<not> own (snd el)) (listeners (disconnect st))"
  using assms unfolding listeners_disconnect inv_listeners_def
  by (intro released_foreign) simp_all

lemma inv_listeners_step: "inv_listeners st \<Longrightarrow> inv_listeners (step i st)"
proof (cases i)
  case (AddHook n h)
  assume "inv_listeners st"
  with AddHook show ?thesis by (simp add: inv_listeners_def)
next
  case Disconnect
  assume "inv_listeners st"
  then have "list_all (\<lambda>el. \<not> own (snd el)) (listeners (disconnect st))"
    by (rule inv_listeners_disconnect)
  then have "inv_listeners (disconnect st)"
    by (rule foreign_inv_listeners)
  with Disconnect show ?thesis by simp
next
  case (Emit ev arg)
  assume "inv_listeners st"
  with Emit show ?thesis by (simp add: inv_listeners_def)
next
  case Resume
  assume "inv_listeners st"
  with Resume show ?thesis by (simp add: inv_listeners_def)
qed

lemma inv_listeners_construct:
  assumes "list_all (\<lambda>el. \<not> own (snd el)) ls"
  shows "inv_listeners (construct opts ls now ctl)"
proof -
  have n: "x \<notin> set ls" if "own (snd x)" for x
    using that assms by (auto simp add: list_all_iff)
  have w: "well_placed sigs el" if "el \<in> set ls" for el sigs
  proof -
    from that assms have "\<not> own (snd el)" by (simp add: list_all_iff)
    then show ?thesis by (cases el; cases "snd el") simp_all
  qed
  have c: "count_list (map (\<lambda>s. (s, ProcessSignal s)) sigs) (ev, l) = 0"
    if "l = ProcessErrors \<or> l = OnExit" for sigs ev l
    using that by (induction sigs) auto
  show ?thesis
    unfolding inv_listeners_def listeners_construct
    by (simp add: n c list_all_iff) (auto intro: w)
qed

lemma inv_listeners_exec: "inv_listeners st \<Longrightarrow> inv_listeners (exec ins st)"
  unfolding exec_def by (rule fold_invariant) (simp_all add: inv_listeners_step)

lemma fold_call_foreign:
  "list_all (\<lambda>l. \<not> own l) xs \<Longrightarrow> fold (\<lambda>l. call l arg) xs st = st"
proof (induction xs)
  case Nil
  then show ?case by simp
next
  case (Cons l xs)
  then show ?case by (cases l) simp_all
qed

lemma emit_foreign:
  assumes "list_all (\<lambda>el. \<not> own (snd el)) (listeners st)"
  shows "emit ev arg st = st"
proof -
  have "list_all (\<lambda>l. \<not> own l) (map snd (filter (\<lambda>el. fst el = ev) (listeners st)))"
    using assms by (simp add: list_all_iff)
  then show ?thesis by (simp add: emit_def fold_call_foreign)
qed

lemma invoked_mem: "m \<in> set (invoked T) \<longleftrightarrow> Invoked m \<in> set T"
proof (induction T)
  case Nil
  then show ?case by simp
next
  case (Cons e T)
  then show ?case by (cases e) auto
qed

lemma started_extend:
  assumes "started_after_previous T" and "invoked X = []"
  shows "started_after_previous (T @ X)"
proof -
  have "takeWhile (\<lambda>e. e \<noteq> Invoked m) (T @ X) = takeWhile (\<lambda>e. e \<noteq> Invoked m) T"
    if "m \<in> set (invoked T)" for m
    using that by (simp add: invoked_mem)
  then show ?thesis
    using assms by (auto simp add: started_after_previous_def list_all_iff split: nat.splits)
qed

lemma started_invoke:
  assumes "started_after_previous T" and "invoked T = [0..<i]"
    and "map fst (responses T) = [0..<i]" and "invoked A = []"
  shows "started_after_previous (T @ A @ [Invoked i])"
proof -
  have old: "takeWhile (\<lambda>e. e \<noteq> Invoked m) (T @ A @ [Invoked i]) = takeWhile (\<lambda>e. e \<noteq> Invoked m) T"
    if "m \<in> set (invoked T)" for m
    using that by (simp add: invoked_mem)
  have "Invoked i \<notin> set T" "Invoked i \<notin> set A"
    using assms(2,4) invoked_mem [of i T] invoked_mem [of i A] by simp_all
  then have ne: "e \<noteq> Invoked i" if "e \<in> set (T @ A)" for e
    using that by auto
  have "takeWhile (\<lambda>e. e \<noteq> Invoked i) ((T @ A) @ [Invoked i]) = (T @ A) @ takeWhile (\<lambda>e. e \<noteq> Invoked i) [Invoked i]"
    by (rule takeWhile_append2) (rule ne)
  then have new: "takeWhile (\<lambda>e. e \<noteq> Invoked i) (T @ A @ [Invoked i]) = T @ A"
    by simp
  have "n \<in> set (map fst (responses (T @ A)))" if "i = Suc n" for n
    using that assms(3) by simp
  with new have "case i of 0 \<Rightarrow> True
      | Suc n \<Rightarrow> n \<in> set (map fst (responses (takeWhile (\<lambda>e. e \<noteq> Invoked (Suc n)) (T @ A @ [Invoked i]))))"
    by (auto split: nat.splits)
  then show ?thesis
    using assms(1,4) old
    by (auto simp add: started_after_previous_def list_all_iff split: nat.splits)
qed

lemma entry_invoked:
  assumes "entry_struct r st"
  shows "invoked (trace st) = [0..<index r]" "map fst (responses (trace st)) = [0..<index r]"
proof -
  show "map fst (responses (trace st)) = [0..<index r]"
    using assms by (simp add: entry_struct_def)
  then show "invoked (trace st) = [0..<index r]"
    using assms invoked_hook_trace [of "trace st"]
    by (simp add: entry_struct_def invoked_segments)
qed

lemma loop_started:
  "entry_struct r st \<Longrightarrow> hs = drop (index r) (handlers st) \<Longrightarrow>
     started_after_previous (trace st) \<Longrightarrow> started_after_previous (trace (loop hs r st))"
proof (induction hs arbitrary: r st)
  case Nil
  then show ?case by (simp add: finish_trace started_extend)
next
  case (Cons h hs)
  from Cons.prems(2) have d: "index r < length (handlers st)" "handlers st ! index r = h"
    "drop (Suc (index r)) (handlers st) = hs"
    using drop_eq_Cons [of "index r" "handlers st" h hs] by simp_all
  have inv: "started_after_previous
      (trace st @ announce (logger st) (name h) @ [Invoked (index r)])"
    using Cons.prems(3) entry_invoked [OF Cons.prems(1)] by (intro started_invoke) simp_all
  show ?case
  proof (cases "handler h")
    case (Throws e)
    let ?st3 = "emit_effect (Finished (index r) (clock st) (Rejected e))
                   (emit_effect (Invoked (index r)) (log_call Info None (ProcessingHook (name h)) st))"
    let ?st4 = "snd (report (name h) (Rejected e) r ?st3)"
    let ?r' = "(fst (report (name h) (Rejected e) r ?st3))\<lparr>index := Suc (index r)\<rparr>"
    have "entry_struct ?r' ?st4"
      using Cons.prems(1) d
      by (auto simp add: entry_struct_def segment_def announce_def)
    moreover have "hs = drop (index ?r') (handlers ?st4)"
      using d by simp
    moreover have "started_after_previous (trace ?st4)"
    proof -
      have "trace ?st4 = (trace st @ announce (logger st) (name h) @ [Invoked (index r)])
          @ (Finished (index r) (clock st) (Rejected e) # report_line (logger st) (name h) (Rejected e))"
        by (simp add: announce_def)
      then show ?thesis using inv by (simp only: started_extend invoked_simps invoked_of.simps report_line_hook append_Nil)
    qed
    ultimately have "started_after_previous (trace (loop hs ?r' ?st4))" by (rule Cons.IH)
    then show ?thesis using Throws by (simp add: Let_def case_prod_beta)
  next
    case ReturnsVoid
    then show ?thesis using inv by (simp add: Let_def announce_def)
  next
    case (Returns p)
    then show ?thesis using inv by (simp add: Let_def announce_def)
  qed
qed

lemma processSignal_entry:
  assumes "inv_flags st" and "\<not> shuttingDown st"
  shows "entry_struct
           \<lparr>signal = sig, withError = False, forceExit = False, index = 0,
              globalTimeout = FiresAt (clock st + delay (shutdownTimeout st))\<rparr>
           (abort ((log_call Info (Some (SignalCtx sig)) ProcessingSignal st)\<lparr>shuttingDown := True\<rparr>))"
proof -
  from assms have idle: "suspended st = None" "list_all idle_effect (trace st)"
    by (simp_all add: inv_flags_def)
  show ?thesis
    using idle(1) idle_effect_hook_facts [OF idle(2)] by (simp add: entry_struct_def segments_def)
qed

lemma resume_entry:
  assumes "inv_struct st" and "suspended st = Some a"
  shows "entry_struct
           ((fst (report (hookName a) (outcome a) (frame a)
                   (emit_effect (Finished (index (frame a)) (settlesAt a) (outcome a))
                     (st\<lparr>suspended := None, clock := settlesAt a\<rparr>))))
              \<lparr>index := Suc (index (frame a)),
                 globalTimeout := (if outcome a = Resolved (Text ''global-timeout'') then Fired
                                   else globalTimeout (frame a))\<rparr>)
           (snd (report (hookName a) (outcome a) (frame a)
                   (emit_effect (Finished (index (frame a)) (settlesAt a) (outcome a))
                     (st\<lparr>suspended := None, clock := settlesAt a\<rparr>))))"
  using assms by (auto simp add: inv_struct_def entry_struct_def current_def segment_def)

lemma started_log:
  "started_after_previous (trace st) \<Longrightarrow> started_after_previous (trace (log_call lv c m st))"
  by (simp add: started_extend)

lemma started_processSignal:
  assumes "inv_flags st" and "started_after_previous (trace st)"
  shows "started_after_previous (trace (processSignal sig st))"
proof (cases "shuttingDown st")
  case True
  with assms(2) show ?thesis by (simp add: processSignal_def started_extend)
next
  case False
  let ?st3 = "abort ((log_call Info (Some (SignalCtx sig)) ProcessingSignal st)\<lparr>shuttingDown := True\<rparr>)"
  let ?r = "\<lparr>signal = sig, withError = False, forceExit = False, index = 0,
             globalTimeout = FiresAt (clock st + delay (shutdownTimeout st))\<rparr>"
  have "entry_struct ?r ?st3" using assms(1) False by (rule processSignal_entry)
  moreover have "handlers ?st3 = drop (index ?r) (handlers ?st3)" by simp
  moreover have "started_after_previous (trace ?st3)"
    using assms(2) by (simp add: started_extend)
  ultimately have "started_after_previous (trace (loop (handlers ?st3) ?r ?st3))"
    by (rule loop_started)
  with False show ?thesis by (simp add: processSignal_def Let_def)
qed

lemma started_processErrors:
  assumes "inv_flags st" and "started_after_previous (trace st)"
  shows "started_after_previous (trace (processErrors v st))"
proof -
  let ?c = "Some (if typeof v = ''object'' then Raw v else Wrapped v)"
  have "inv_flags (log_call Error ?c Uncaught st)"
    using assms(1) by (rule inv_flags_log_Uncaught)
  moreover have "started_after_previous (trace (log_call Error ?c Uncaught st))"
    using assms(2) by (rule started_log)
  ultimately show ?thesis
    unfolding processErrors_def Let_def by (rule started_processSignal)
qed

lemma started_resume:
  assumes "inv_struct st" and "started_after_previous (trace st)"
  shows "started_after_previous (trace (resume st))"
proof (cases "suspended st")
  case None
  with assms(2) show ?thesis by (simp add: resume_def)
next
  case (Some a)
  let ?st2 = "emit_effect (Finished (index (frame a)) (settlesAt a) (outcome a))
               (st\<lparr>suspended := None, clock := settlesAt a\<rparr>)"
  let ?rep = "report (hookName a) (outcome a) (frame a) ?st2"
  let ?r2 = "(fst ?rep)\<lparr>index := Suc (index (frame a)),
               globalTimeout := (if outcome a = Resolved (Text ''global-timeout'') then Fired
                                 else globalTimeout (frame a))\<rparr>"
  have "entry_struct ?r2 (snd ?rep)" using assms(1) Some by (rule resume_entry)
  moreover have "drop (index ?r2) (handlers (snd ?rep)) = drop (index ?r2) (handlers (snd ?rep))" ..
  moreover have "started_after_previous (trace (snd ?rep))"
    using assms(2) by (simp add: started_extend)
  ultimately have "started_after_previous (trace (loop (drop (index ?r2) (handlers (snd ?rep))) ?r2 (snd ?rep)))"
    by (rule loop_started)
  with Some show ?thesis by (simp add: resume_def Let_def case_prod_beta)
qed

lemma invariant3_call:
  assumes "invariant3 st"
  shows "invariant3 (call l arg st)"
proof -
  from assms have i: "invariant st" "inv_flags st" "started_after_previous (trace st)"
    by (simp_all add: invariant3_def invariant_def)
  have "started_after_previous (trace (call l arg st))"
  proof (cases l)
    case ProcessErrors
    then show ?thesis using i by (simp add: started_processErrors)
  next
    case (ProcessSignal s)
    then show ?thesis using i by (simp add: started_processSignal)
  next
    case OnExit
    then show ?thesis using i by (simp add: started_extend)
  next
    case (Foreign k)
    then show ?thesis using i by simp
  qed
  with i(1) show ?thesis by (simp add: invariant3_def invariant_call)
qed

lemma invariant3_step: "invariant3 st \<Longrightarrow> invariant3 (step i st)"
proof (cases i)
  case (AddHook n h)
  assume "invariant3 st"
  with AddHook show ?thesis
    using invariant_step [of st i] by (simp add: invariant3_def started_extend)
next
  case Disconnect
  assume "invariant3 st"
  with Disconnect show ?thesis
    using invariant_step [of st i] by (simp add: invariant3_def)
next
  case (Emit ev arg)
  assume "invariant3 st"
  then have "invariant3 (emit ev arg st)"
    unfolding emit_def by (rule fold_invariant) (simp add: invariant3_call)
  with Emit show ?thesis by simp
next
  case Resume
  assume "invariant3 st"
  with Resume show ?thesis
    using invariant_step [of st i] by (simp add: invariant3_def invariant_def started_resume)
qed

lemma reachable_invariant3: "invariant3 (exec ins (construct opts ls now ctl))"
proof -
  have "invariant3 (construct opts ls now ctl)"
    by (simp add: invariant3_def invariant_construct)
       (simp add: started_after_previous_def construct_def)
  then show ?thesis
    unfolding exec_def by (rule fold_invariant) (simp add: invariant3_step)
qed

lemma loop_completes_all:
  "entry_struct r st \<Longrightarrow> hs = drop (index r) (handlers st) \<Longrightarrow>
     suspended (loop hs r st) = None \<Longrightarrow>
     length (responses (trace (loop hs r st))) = length (handlers st)"
proof (induction hs arbitrary: r st)
  case Nil
  then show ?case by (simp add: entry_struct_def finish_trace)
next
  case (Cons h hs)
  from Cons.prems(2) have d: "index r < length (handlers st)" "handlers st ! index r = h"
    "drop (Suc (index r)) (handlers st) = hs"
    using drop_eq_Cons [of "index r" "handlers st" h hs] by simp_all
  show ?case
  proof (cases "handler h")
    case (Throws e)
    let ?st3 = "emit_effect (Finished (index r) (clock st) (Rejected e))
                   (emit_effect (Invoked (index r)) (log_call Info None (ProcessingHook (name h)) st))"
    let ?st4 = "snd (report (name h) (Rejected e) r ?st3)"
    let ?r' = "(fst (report (name h) (Rejected e) r ?st3))\<lparr>index := Suc (index r)\<rparr>"
    have "entry_struct ?r' ?st4"
      using Cons.prems(1) d
      by (auto simp add: entry_struct_def segment_def announce_def)
    moreover have "hs = drop (index ?r') (handlers ?st4)"
      using d by simp
    moreover have "suspended (loop hs ?r' ?st4) = None"
      using Cons.prems(3) Throws by (simp add: Let_def case_prod_beta)
    ultimately have "length (responses (trace (loop hs ?r' ?st4))) = length (handlers ?st4)"
      by (rule Cons.IH)
    then show ?thesis using Throws by (simp add: Let_def case_prod_beta)
  next
    case ReturnsVoid
    with Cons.prems(3) show ?thesis by (simp add: Let_def await_race_def split: prod.splits)
  next
    case (Returns p)
    with Cons.prems(3) show ?thesis by (simp add: Let_def await_race_def split: prod.splits)
  qed
qed

lemma resume_first:
  assumes "suspended st = Some a"
  shows "\<exists>X. trace (resume st) =
           trace st @ Finished (index (frame a)) (settlesAt a) (outcome a) # X"
proof -
  let ?st2 = "emit_effect (Finished (index (frame a)) (settlesAt a) (outcome a))
               (st\<lparr>suspended := None, clock := settlesAt a\<rparr>)"
  let ?rep = "report (hookName a) (outcome a) (frame a) ?st2"
  let ?r2 = "(fst ?rep)\<lparr>index := Suc (index (frame a)),
               globalTimeout := (if outcome a = Resolved (Text ''global-timeout'') then Fired
                                 else globalTimeout (frame a))\<rparr>"
  obtain X where "trace (loop (drop (index ?r2) (handlers (snd ?rep))) ?r2 (snd ?rep)) = trace (snd ?rep) @ X"
    using loop_extends by blast
  with assms show ?thesis by (simp add: resume_def Let_def case_prod_beta)
qed

lemma resume_completes_all:
  assumes "inv_struct st" and "suspended st = Some a" and "suspended (resume st) = None"
  shows "length (responses (trace (resume st))) = length (handlers st)"
proof -
  let ?st2 = "emit_effect (Finished (index (frame a)) (settlesAt a) (outcome a))
               (st\<lparr>suspended := None, clock := settlesAt a\<rparr>)"
  let ?rep = "report (hookName a) (outcome a) (frame a) ?st2"
  let ?r2 = "(fst ?rep)\<lparr>index := Suc (index (frame a)),
               globalTimeout := (if outcome a = Resolved (Text ''global-timeout'') then Fired
                                 else globalTimeout (frame a))\<rparr>"
  have r: "resume st = loop (drop (index ?r2) (handlers (snd ?rep))) ?r2 (snd ?rep)"
    using assms(2) by (simp add: resume_def Let_def case_prod_beta)
  have "entry_struct ?r2 (snd ?rep)" using assms(1,2) by (rule resume_entry)
  moreover have "drop (index ?r2) (handlers (snd ?rep)) = drop (index ?r2) (handlers (snd ?rep))" ..
  moreover have "suspended (loop (drop (index ?r2) (handlers (snd ?rep))) ?r2 (snd ?rep)) = None"
    using assms(3) r by simp
  ultimately have "length (responses (trace (loop (drop (index ?r2) (handlers (snd ?rep))) ?r2 (snd ?rep))))
      = length (handlers (snd ?rep))"
    by (rule loop_completes_all)
  then show ?thesis using r by simp
qed

lemma resume_decreases:
  assumes "inv_struct st" and "suspended st = Some a"
  shows "remaining (resume st) < remaining st"
proof (cases "suspended (resume st)")
  case None
  with assms show ?thesis by (simp add: remaining_def inv_struct_def)
next
  case (Some a')
  obtain X where x: "trace (resume st) =
       trace st @ Finished (index (frame a)) (settlesAt a) (outcome a) # X"
    using resume_first [OF assms(2)] by blast
  have s': "inv_struct (resume st)" using assms(1) by (rule inv_struct_resume)
  from s' Some have "index (frame a') = length (responses (trace (resume st)))"
    "index (frame a') < length (handlers st)"
    by (simp_all add: inv_struct_def)
  moreover from assms have "index (frame a) = length (responses (trace st))"
    by (simp add: inv_struct_def)
  ultimately show ?thesis
    using Some assms(2) x by (simp add: remaining_def)
qed

lemma resumes_complete:
  "invariant st \<Longrightarrow> remaining st \<le> n \<Longrightarrow> suspended (exec (replicate n Resume) st) = None"
proof (induction n arbitrary: st)
  case 0
  then show ?case
    by (auto simp add: exec_def remaining_def invariant_def inv_struct_def split: option.splits)
next
  case (Suc n)
  show ?case
  proof (cases "suspended st")
    case None
    then have "resume st = st" by (simp add: resume_def)
    moreover have "remaining st \<le> n" using None by (simp add: remaining_def)
    ultimately show ?thesis using Suc.IH [of st] Suc.prems(1) by (simp add: exec_def)
  next
    case (Some a)
    have "remaining (resume st) < remaining st"
      using Suc.prems(1) Some by (intro resume_decreases) (simp_all add: invariant_def)
    then have "remaining (resume st) \<le> n" using Suc.prems(2) by simp
    moreover have "invariant (resume st)"
      using invariant_step [OF Suc.prems(1), of Resume] by simp
    ultimately have "suspended (exec (replicate n Resume) (resume st)) = None"
      by (intro Suc.IH)
    then show ?thesis by (simp add: exec_def)
  qed
qed

text \<open>While the manager is shutting down, a listener of the manager only logs.\<close>

lemma call_while_shutting:
  assumes "shuttingDown st"
  shows "suspended (call l arg st) = suspended st"
    and "hook_trace (trace (call l arg st)) = hook_trace (trace st)"
    and "invoked (trace (call l arg st)) = invoked (trace st)"
    and "shuttingDown (call l arg st)"
  using assms by (cases l; simp add: processSignal_def processErrors_def)+

lemma emit_while_shutting:
  assumes "shuttingDown st"
  shows "suspended (emit ev arg st) = suspended st
       \<and> hook_trace (trace (emit ev arg st)) = hook_trace (trace st)
       \<and> invoked (trace (emit ev arg st)) = invoked (trace st)"
proof -
  have "shuttingDown (fold (\<lambda>l. call l arg) xs st)
       \<and> suspended (fold (\<lambda>l. call l arg) xs st) = suspended st
       \<and> hook_trace (trace (fold (\<lambda>l. call l arg) xs st)) = hook_trace (trace st)
       \<and> invoked (trace (fold (\<lambda>l. call l arg) xs st)) = invoked (trace st)" for xs
    using assms
  proof (induction xs arbitrary: st)
    case Nil
    then show ?case by simp
  next
    case (Cons l xs)
    from Cons.IH [of "call l arg st"] call_while_shutting [OF Cons.prems, of l arg]
    show ?case by simp
  qed
  then show ?thesis by (simp add: emit_def)
qed

lemma step_when_completed:
  assumes "completed st"
  shows "completed (step i st) \<and> hook_trace (trace (step i st)) = hook_trace (trace st)
       \<and> invoked (trace (step i st)) = invoked (trace st)"
proof (cases i)
  case (AddHook n h)
  with assms show ?thesis by (simp add: completed_def)
next
  case Disconnect
  with assms show ?thesis by (simp add: completed_def)
next
  case (Emit ev arg)
  with assms emit_while_shutting [of st ev arg] emit_shuttingDown [of st ev arg]
  show ?thesis by (simp add: completed_def)
next
  case Resume
  with assms show ?thesis by (simp add: completed_def resume_def)
qed

lemma exec_when_completed:
  "completed st \<Longrightarrow> completed (exec ins st) \<and> hook_trace (trace (exec ins st)) = hook_trace (trace st)
       \<and> invoked (trace (exec ins st)) = invoked (trace st)"
proof (induction ins arbitrary: st)
  case Nil
  then show ?case by (simp add: exec_def)
next
  case (Cons i ins)
  from step_when_completed [OF Cons.prems, of i] Cons.IH [of "step i st"]
  show ?case by (simp add: exec_def)
qed

lemma processSignal_completes_all:
  assumes "inv_flags st" and "\<not> shuttingDown st" and "suspended (processSignal sig st) = None"
  shows "length (responses (trace (processSignal sig st))) = length (handlers st)"
proof -
  let ?st3 = "abort ((log_call Info (Some (SignalCtx sig)) ProcessingSignal st)\<lparr>shuttingDown := True\<rparr>)"
  let ?r = "\<lparr>signal = sig, withError = False, forceExit = False, index = 0,
             globalTimeout = FiresAt (clock st + delay (shutdownTimeout st))\<rparr>"
  have p: "processSignal sig st = loop (handlers ?st3) ?r ?st3"
    using assms(2) by (simp add: processSignal_def Let_def)
  have "entry_struct ?r ?st3" using assms(1,2) by (rule processSignal_entry)
  moreover have "handlers ?st3 = drop (index ?r) (handlers ?st3)" by simp
  moreover have "suspended (loop (handlers ?st3) ?r ?st3) = None" using assms(3) p by simp
  ultimately have "length (responses (trace (loop (handlers ?st3) ?r ?st3))) = length (handlers ?st3)"
    by (rule loop_completes_all)
  then show ?thesis using p by simp
qed

lemma invariant_log_Uncaught: "invariant st \<Longrightarrow> invariant (log_call Error c Uncaught st)"
  by (simp add: invariant_def inv_flags_log_Uncaught inv_struct_log inv_race_log)

lemma processErrors_completes_all:
  assumes "inv_flags st" and "\<not> shuttingDown st" and "suspended (processErrors v st) = None"
  shows "length (responses (trace (processErrors v st))) = length (handlers st)"
proof -
  let ?st1 = "log_call Error (Some (if typeof v = ''object'' then Raw v else Wrapped v)) Uncaught st"
  have "length (responses (trace (processSignal ''SIGUSR2'' ?st1))) = length (handlers ?st1)"
    using assms by (intro processSignal_completes_all)
      (simp_all add: inv_flags_log_Uncaught processErrors_def Let_def)
  then show ?thesis by (simp add: processErrors_def Let_def)
qed

lemma call_covers:
  assumes "invariant st" and "\<not> completed st" and "completed (call l arg st)"
  shows "invoked (trace (call l arg st)) = [0..<length (handlers st)]"
proof (cases "shuttingDown st")
  case True
  with assms(2,3) call_while_shutting(1) [OF True, of l arg] show ?thesis
    by (simp add: completed_def)
next
  case False
  from assms(1) have f: "inv_flags st" by (simp add: invariant_def)
  have s': "inv_struct (call l arg st)"
    using invariant_call [OF assms(1), of l arg] by (simp add: invariant_def)
  have "length (responses (trace (call l arg st))) = length (handlers st)"
  proof (cases l)
    case ProcessErrors
    with assms(3) f False show ?thesis
      by (simp add: processErrors_completes_all completed_def)
  next
    case (ProcessSignal s)
    with assms(3) f False show ?thesis
      by (simp add: processSignal_completes_all completed_def)
  next
    case OnExit
    with assms(3) False show ?thesis by (simp add: completed_def)
  next
    case (Foreign k)
    with assms(3) False show ?thesis by (simp add: completed_def)
  qed
  with assms(3) invoked_reachable [OF s'] show ?thesis by (simp add: completed_def)
qed

lemma fold_call_while_shutting:
  "shuttingDown st \<Longrightarrow>
     shuttingDown (fold (\<lambda>l. call l arg) xs st)
   \<and> suspended (fold (\<lambda>l. call l arg) xs st) = suspended st
   \<and> invoked (trace (fold (\<lambda>l. call l arg) xs st)) = invoked (trace st)"
proof (induction xs arbitrary: st)
  case Nil
  then show ?case by simp
next
  case (Cons l xs)
  from Cons.IH [of "call l arg st"] call_while_shutting [OF Cons.prems, of l arg]
  show ?case by simp
qed

lemma fold_call_covers:
  "invariant st \<Longrightarrow> \<not> completed st \<Longrightarrow> completed (fold (\<lambda>l. call l arg) xs st) \<Longrightarrow>
     invoked (trace (fold (\<lambda>l. call l arg) xs st)) = [0..<length (handlers st)]"
proof (induction xs arbitrary: st)
  case Nil
  then show ?case by simp
next
  case (Cons l xs)
  show ?case
  proof (cases "completed (call l arg st)")
    case True
    then have "invoked (trace (call l arg st)) = [0..<length (handlers st)]"
      using Cons.prems(1,2) by (intro call_covers)
    moreover have "invoked (trace (fold (\<lambda>l. call l arg) xs (call l arg st))) = invoked (trace (call l arg st))"
      using True fold_call_while_shutting [of "call l arg st" arg xs] by (simp add: completed_def)
    ultimately show ?thesis by simp
  next
    case False
    have "invoked (trace (fold (\<lambda>l. call l arg) xs (call l arg st))) = [0..<length (handlers (call l arg st))]"
      using False Cons.prems(3) invariant_call [OF Cons.prems(1), of l arg]
      by (intro Cons.IH) simp_all
    then show ?thesis by simp
  qed
qed

lemma step_covers:
  assumes "invariant st" and "\<not> completed st" and "completed (step i st)"
  shows "invoked (trace (step i st)) = [0..<length (handlers (step i st))]"
proof (cases i)
  case (AddHook n h)
  with assms(2,3) show ?thesis by (simp add: completed_def)
next
  case Disconnect
  with assms(2,3) show ?thesis by (simp add: completed_def)
next
  case (Emit ev arg)
  with assms show ?thesis by (simp add: emit_def fold_call_covers)
next
  case Resume
  show ?thesis
  proof (cases "suspended st")
    case None
    with assms(2,3) Resume show ?thesis by (simp add: resume_def)
  next
    case (Some a)
    from assms(1) have s: "inv_struct st" by (simp add: invariant_def)
    have "length (responses (trace (resume st))) = length (handlers st)"
      using s Some assms(3) Resume by (intro resume_completes_all) (simp_all add: completed_def)
    with invoked_reachable [OF inv_struct_resume [OF s]] assms(3) Resume
    show ?thesis by (simp add: completed_def)
  qed
qed

lemma handlers_step_grow: "length (handlers st) \<le> length (handlers (step i st))"
  by (cases i) simp_all

lemma in_flight_hooks_run:
  "invariant st \<Longrightarrow> suspended st \<noteq> None \<Longrightarrow> m < length (handlers st) \<Longrightarrow>
     completed (exec later st) \<Longrightarrow> m \<in> set (invoked (trace (exec later st)))"
proof (induction later arbitrary: st)
  case Nil
  then show ?case by (simp add: exec_def completed_def)
next
  case (Cons i later)
  have inv': "invariant (step i st)" using Cons.prems(1) by (rule invariant_step)
  have m': "m < length (handlers (step i st))"
    using Cons.prems(3) handlers_step_grow [of st i] by simp
  have c: "completed (exec later (step i st))" using Cons.prems(4) by (simp add: exec_def)
  show ?case
  proof (cases "suspended (step i st)")
    case (Some a)
    then have "m \<in> set (invoked (trace (exec later (step i st))))"
      using inv' m' c by (intro Cons.IH) simp_all
    then show ?thesis by (simp add: exec_def)
  next
    case None
    from Cons.prems(1,2) have "shuttingDown st"
      by (auto simp add: invariant_def inv_flags_def split: option.splits)
    then have cs: "completed (step i st)"
      using None step_shuttingDown [of st i] by (simp add: completed_def)
    have "\<not> completed st" using Cons.prems(2) by (simp add: completed_def)
    then have "invoked (trace (step i st)) = [0..<length (handlers (step i st))]"
      using Cons.prems(1) cs by (intro step_covers)
    with m' have "m \<in> set (invoked (trace (step i st)))" by simp
    with exec_when_completed [OF cs, of later] show ?thesis by (simp add: exec_def)
  qed
qed

lemma hadError_mono: "hadError T \<Longrightarrow> hadError (T @ X)"
  by simp

lemma resume_rejected:
  assumes "suspended st = Some a" and "outcome a = Rejected e"
  shows "resume st =
           loop (drop (Suc (index (frame a))) (handlers st))
             ((frame a)\<lparr>withError := True, index := Suc (index (frame a))\<rparr>)
             (st\<lparr>suspended := None, clock := settlesAt a,
                 trace := trace st @ Finished (index (frame a)) (settlesAt a) (Rejected e)
                   # (if logger st
                      then [Log Error (Some (hook_error_context e)) (Unsuccessful (hookName a))]
                      else [])\<rparr>)"
  using assms
  by (simp add: resume_def Let_def report_def log_call_def emit_effect_def)

lemma loop_throws:
  assumes "handler h = Throws e"
  shows "loop (h # hs) r st =
           loop hs (r\<lparr>withError := True, index := Suc (index r)\<rparr>)
             (st\<lparr>trace := trace st @ announce (logger st) (name h)
                   @ [Invoked (index r), Finished (index r) (clock st) (Rejected e)]
                   @ (if logger st
                      then [Log Error (Some (hook_error_context e)) (Unsuccessful (name h))]
                      else [])\<rparr>)"
  using assms
  by (simp add: Let_def report_def log_call_def emit_effect_def announce_def)

lemma failure_gives_exit_1:
  assumes "invariant st" and "hadError (trace st)" and "completed (exec later st)"
  shows "exits (trace (exec later st)) = [1]"
proof -
  obtain X where "trace (exec later st) = trace st @ X" using exec_extends by blast
  with assms(2) have "hadError (trace (exec later st))" by simp
  moreover have "inv_flags (exec later st)"
    using invariant_exec [OF assms(1), of later] by (simp add: invariant_def)
  ultimately show ?thesis using assms(3) by (simp add: inv_flags_def completed_def)
qed

lemma shutdown_completes:
  assumes "invariant st" and "shuttingDown st"
  shows "completed (exec (replicate (length (handlers st)) Resume) st)
       \<and> length (exits (trace (exec (replicate (length (handlers st)) Resume) st))) = 1"
proof -
  let ?st' = "exec (replicate (length (handlers st)) Resume) st"
  have "remaining st \<le> length (handlers st)"
    by (simp add: remaining_def split: option.splits)
  with assms(1) have "suspended ?st' = None" by (rule resumes_complete)
  moreover have "shuttingDown ?st'" using assms(2) by (rule exec_shuttingDown)
  moreover have "inv_flags ?st'"
    using invariant_exec [OF assms(1)] by (simp add: invariant_def)
  ultimately show ?thesis by (simp add: completed_def inv_flags_def)
qed

lemma loop_keeps_globalTimeout:
  "suspended st = None \<Longrightarrow>
     (case suspended (loop hs r st) of None \<Rightarrow> True | Some a \<Rightarrow> globalTimeout (frame a) = globalTimeout r)"
proof (induction hs arbitrary: r st)
  case Nil
  then show ?case by simp
next
  case (Cons h hs)
  show ?case
  proof (cases "handler h")
    case (Throws e)
    let ?st3 = "emit_effect (Finished (index r) (clock st) (Rejected e))
                   (emit_effect (Invoked (index r)) (log_call Info None (ProcessingHook (name h)) st))"
    let ?st4 = "snd (report (name h) (Rejected e) r ?st3)"
    let ?r' = "(fst (report (name h) (Rejected e) r ?st3))\<lparr>index := Suc (index r)\<rparr>"
    have "suspended ?st4 = None" using Cons.prems by simp
    then have "case suspended (loop hs ?r' ?st4) of None \<Rightarrow> True
               | Some a \<Rightarrow> globalTimeout (frame a) = globalTimeout ?r'"
      by (rule Cons.IH)
    then show ?thesis using Throws by (auto simp add: Let_def case_prod_beta split: option.splits)
  next
    case ReturnsVoid
    then show ?thesis by (simp add: Let_def await_race_def split: prod.splits)
  next
    case (Returns p)
    then show ?thesis by (simp add: Let_def await_race_def split: prod.splits)
  qed
qed

lemma delay_pos [simp]: "0 < delay ms"
  by (simp add: delay_def)

lemma race_before_deadline:
  assumes "race p now per (FiresAt deadline) = (t, r)" and "now < deadline"
    and "r \<noteq> Resolved (Text ''global-timeout'')"
  shows "t < deadline"
proof (cases p)
  case (Settled s)
  with assms show ?thesis by auto
next
  case (SettlesAfter d s)
  with assms show ?thesis by (auto simp add: timer_wins_def split: if_splits)
next
  case NeverSettles
  with assms show ?thesis by (auto simp add: timer_wins_def split: if_splits)
qed

lemma inv_deadline_log: "inv_deadline t0 st \<Longrightarrow> inv_deadline t0 (log_call lv c m st)"
  by (auto simp add: inv_deadline_def split: option.splits)

lemma inv_deadline_processSignal:
  assumes "inv_flags st" and "inv_deadline t0 st"
  shows "inv_deadline t0 (processSignal sig st)"
proof (cases "shuttingDown st")
  case True
  with assms(2) show ?thesis by (simp add: processSignal_def inv_deadline_log)
next
  case False
  let ?st3 = "abort ((log_call Info (Some (SignalCtx sig)) ProcessingSignal st)\<lparr>shuttingDown := True\<rparr>)"
  let ?r = "\<lparr>signal = sig, withError = False, forceExit = False, index = 0,
             globalTimeout = FiresAt (clock ?st3 + delay (shutdownTimeout ?st3))\<rparr>"
  from assms(1) False have "suspended ?st3 = None" by (simp add: inv_flags_def)
  then have "case suspended (loop (handlers ?st3) ?r ?st3) of None \<Rightarrow> True
             | Some a \<Rightarrow> globalTimeout (frame a) = globalTimeout ?r"
    by (rule loop_keeps_globalTimeout)
  moreover have "clock st = t0" using assms(2) False by (simp add: inv_deadline_def)
  ultimately show ?thesis
    using False by (auto simp add: processSignal_def Let_def inv_deadline_def split: option.splits)
qed

lemma inv_deadline_processErrors:
  assumes "inv_flags st" and "inv_deadline t0 st"
  shows "inv_deadline t0 (processErrors v st)"
proof -
  let ?c = "Some (if typeof v = ''object'' then Raw v else Wrapped v)"
  have "inv_flags (log_call Error ?c Uncaught st)"
    using assms(1) by (rule inv_flags_log_Uncaught)
  moreover have "inv_deadline t0 (log_call Error ?c Uncaught st)"
    using assms(2) by (rule inv_deadline_log)
  ultimately show ?thesis
    unfolding processErrors_def Let_def by (rule inv_deadline_processSignal)
qed

lemma inv_deadline_resume:
  assumes "inv_flags st" and "inv_race st" and "inv_deadline t0 st"
  shows "inv_deadline t0 (resume st)"
proof (cases "suspended st")
  case None
  with assms(3) show ?thesis by (simp add: resume_def)
next
  case (Some a)
  let ?st2 = "emit_effect (Finished (index (frame a)) (settlesAt a) (outcome a))
               (st\<lparr>suspended := None, clock := settlesAt a\<rparr>)"
  let ?rep = "report (hookName a) (outcome a) (frame a) ?st2"
  let ?r2 = "(fst ?rep)\<lparr>index := Suc (index (frame a)),
               globalTimeout := (if outcome a = Resolved (Text ''global-timeout'') then Fired
                                 else globalTimeout (frame a))\<rparr>"
  let ?D = "t0 + delay (shutdownTimeout st)"
  have "suspended (snd ?rep) = None" by simp
  then have k: "case suspended (loop (drop (index ?r2) (handlers (snd ?rep))) ?r2 (snd ?rep)) of None \<Rightarrow> True
             | Some a' \<Rightarrow> globalTimeout (frame a') = globalTimeout ?r2"
    by (rule loop_keeps_globalTimeout)
  have sd: "shuttingDown st" using assms(1) Some by (simp add: inv_flags_def)
  have lt: "settlesAt a < ?D"
    if "globalTimeout (frame a) \<noteq> Fired" and "outcome a \<noteq> Resolved (Text ''global-timeout'')"
  proof -
    from that(1) assms(3) Some have g: "globalTimeout (frame a) = FiresAt ?D" and c: "clock st < ?D"
      by (simp_all add: inv_deadline_def)
    from assms(2) Some obtain p where
      "race p (clock st) (perHookTimeout st) (globalTimeout (frame a)) = (settlesAt a, outcome a)"
      by (auto simp add: inv_race_def split: option.splits)
    with g have "race p (clock st) (perHookTimeout st) (FiresAt ?D) = (settlesAt a, outcome a)"
      by simp
    then show ?thesis using c that(2) by (rule race_before_deadline)
  qed
  have r: "resume st = loop (drop (index ?r2) (handlers (snd ?rep))) ?r2 (snd ?rep)"
    using Some by (simp add: resume_def Let_def case_prod_beta)
  show ?thesis
  proof (cases "suspended (resume st)")
    case None
    then show ?thesis using sd by (simp add: inv_deadline_def)
  next
    case s': (Some a')
    with k r have g': "globalTimeout (frame a') = globalTimeout ?r2" by simp
    have c': "clock (resume st) = settlesAt a" unfolding r by simp
    show ?thesis
    proof (cases "globalTimeout (frame a') = Fired")
      case True
      then show ?thesis using s' sd by (simp add: inv_deadline_def)
    next
      case False
      with g' have ng: "outcome a \<noteq> Resolved (Text ''global-timeout'')"
        and nf: "globalTimeout (frame a) \<noteq> Fired"
        and e: "globalTimeout (frame a') = globalTimeout (frame a)"
        by (auto split: if_splits)
      from nf assms(3) Some have "globalTimeout (frame a) = FiresAt ?D"
        by (simp add: inv_deadline_def)
      with e lt [OF nf ng] c' s' sd show ?thesis by (simp add: inv_deadline_def)
    qed
  qed
qed

lemma invariant4_call:
  assumes "invariant4 t0 st"
  shows "invariant4 t0 (call l arg st)"
proof -
  from assms have i: "invariant st" "inv_flags st" "inv_deadline t0 st"
    by (simp_all add: invariant4_def invariant_def)
  have "inv_deadline t0 (call l arg st)"
  proof (cases l)
    case ProcessErrors
    then show ?thesis using i by (simp add: inv_deadline_processErrors)
  next
    case (ProcessSignal s)
    then show ?thesis using i by (simp add: inv_deadline_processSignal)
  next
    case OnExit
    then show ?thesis using i by (simp add: onExit_def inv_deadline_log)
  next
    case (Foreign k)
    then show ?thesis using i by simp
  qed
  with i(1) show ?thesis by (simp add: invariant4_def invariant_call)
qed

lemma invariant4_step: "invariant4 t0 st \<Longrightarrow> invariant4 t0 (step i st)"
proof (cases i)
  case (AddHook n h)
  assume "invariant4 t0 st"
  with AddHook show ?thesis
    using invariant_step [of st i]
    by (auto simp add: invariant4_def inv_deadline_def split: option.splits)
next
  case Disconnect
  assume "invariant4 t0 st"
  with Disconnect show ?thesis
    using invariant_step [of st i]
    by (auto simp add: invariant4_def inv_deadline_def split: option.splits)
next
  case (Emit ev arg)
  assume "invariant4 t0 st"
  then have "invariant4 t0 (emit ev arg st)"
    unfolding emit_def by (rule fold_invariant) (simp add: invariant4_call)
  with Emit show ?thesis by simp
next
  case Resume
  assume "invariant4 t0 st"
  with Resume show ?thesis
    using invariant_step [of st i]
    by (simp add: invariant4_def invariant_def inv_deadline_resume)
qed

lemma reachable_invariant4: "invariant4 now (exec ins (construct opts ls now ctl))"
proof -
  have "invariant4 now (construct opts ls now ctl)"
    by (simp add: invariant4_def invariant_construct)
       (simp add: inv_deadline_def construct_def)
  then show ?thesis
    unfolding exec_def by (rule fold_invariant) (simp add: invariant4_step)
qed

lemma resume_timed_out:
  assumes "suspended st = Some a" and "outcome a = Resolved (Text ''timeout'')"
  shows "resume st =
           loop (drop (Suc (index (frame a))) (handlers st))
             ((frame a)\<lparr>withError := True, index := Suc (index (frame a))\<rparr>)
             (st\<lparr>suspended := None, clock := settlesAt a,
                 trace := trace st @ Finished (index (frame a)) (settlesAt a) (Resolved (Text ''timeout''))
                   # (if logger st then [Log Info None (TimedOut (hookName a))] else [])\<rparr>)"
  using assms
  by (simp add: resume_def Let_def report_def log_call_def emit_effect_def)

lemma resume_global_timeout:
  assumes "suspended st = Some a" and "outcome a = Resolved (Text ''global-timeout'')"
  shows "resume st =
           loop (drop (Suc (index (frame a))) (handlers st))
             ((frame a)\<lparr>forceExit := True, index := Suc (index (frame a)), globalTimeout := Fired\<rparr>)
             (st\<lparr>suspended := None, clock := settlesAt a,
                 trace := trace st @ [Finished (index (frame a)) (settlesAt a)
                                        (Resolved (Text ''global-timeout''))]\<rparr>)"
  using assms
  by (simp add: resume_def Let_def report_def log_call_def emit_effect_def)

lemma deadline_gives_exit_1:
  assumes "invariant st" and "deadlineReached (trace st)" and "completed (exec later st)"
  shows "exits (trace (exec later st)) = [1]
       \<and> (logger st \<longrightarrow> Log Warn None GlobalReached \<in> set (trace (exec later st)))"
proof -
  obtain X where "trace (exec later st) = trace st @ X" using exec_extends by blast
  with assms(2) have "deadlineReached (trace (exec later st))" by simp
  moreover have "inv_flags (exec later st)"
    using invariant_exec [OF assms(1), of later] by (simp add: invariant_def)
  ultimately show ?thesis using assms(3) by (simp add: inv_flags_def completed_def)
qed

lemma no_deadline_response:
  "list_all (\<lambda>x. snd (snd x) = Resolved Undefined \<or> snd (snd x) = Resolved (Text ''timeout''))
     (responses T) \<Longrightarrow> \<not> deadlineReached T"
proof (induction T)
  case Nil
  then show ?case by simp
next
  case (Cons e T)
  then show ?case by (cases e) auto
qed

lemma timeout_response:
  "list_ex (\<lambda>x. snd (snd x) = Resolved (Text ''timeout'')) (responses T) \<Longrightarrow> hadError T"
proof (induction T)
  case Nil
  then show ?case by simp
next
  case (Cons e T)
  then show ?case by (cases e) auto
qed

lemma race_explains: "race p now per g = (t, r) \<Longrightarrow> explains per (Returns p) r"
proof (cases p)
  case (Settled s)
  assume "race p now per g = (t, r)"
  with Settled show ?thesis by (cases s) auto
next
  case (SettlesAfter d s)
  assume "race p now per g = (t, r)"
  with SettlesAfter show ?thesis
    by (cases s; cases g) (auto simp add: timer_wins_def split: if_splits)
next
  case NeverSettles
  assume "race p now per g = (t, r)"
  with NeverSettles show ?thesis
    by (cases g) (auto simp add: timer_wins_def split: if_splits)
qed

lemma returned_explains:
  "returned b = Some p \<Longrightarrow> race p now per g = (t, r) \<Longrightarrow> explains per b r"
  by (cases b) (auto dest: race_explains)

lemma explained_append: "explained per hs x \<Longrightarrow> explained per (hs @ more_hooks) x"
  by (simp add: explained_def nth_append)

lemma loop_responses:
  "hs = drop (index r) (handlers st) \<Longrightarrow> inv_responses st \<Longrightarrow> inv_responses (loop hs r st)"
proof (induction hs arbitrary: r st)
  case Nil
  then show ?case by (simp add: inv_responses_def finish_trace)
next
  case (Cons h hs)
  from Cons.prems(1) have d: "index r < length (handlers st)" "handlers st ! index r = h"
    "drop (Suc (index r)) (handlers st) = hs"
    using drop_eq_Cons [of "index r" "handlers st" h hs] by simp_all
  show ?case
  proof (cases "handler h")
    case (Throws e)
    let ?st3 = "emit_effect (Finished (index r) (clock st) (Rejected e))
                   (emit_effect (Invoked (index r)) (log_call Info None (ProcessingHook (name h)) st))"
    let ?st4 = "snd (report (name h) (Rejected e) r ?st3)"
    let ?r' = "(fst (report (name h) (Rejected e) r ?st3))\<lparr>index := Suc (index r)\<rparr>"
    have "hs = drop (index ?r') (handlers ?st4)" using d by simp
    moreover have "inv_responses ?st4"
      using Cons.prems(2) d Throws
      by (simp add: inv_responses_def explained_def report_line_def)
    ultimately have "inv_responses (loop hs ?r' ?st4)" by (rule Cons.IH)
    then show ?thesis using Throws by (simp add: Let_def case_prod_beta)
  next
    case ReturnsVoid
    then show ?thesis using Cons.prems(2) by (simp add: inv_responses_def Let_def)
  next
    case (Returns p)
    then show ?thesis using Cons.prems(2) by (simp add: inv_responses_def Let_def)
  qed
qed

lemma inv_responses_log: "inv_responses st \<Longrightarrow> inv_responses (log_call lv c m st)"
  by (simp add: inv_responses_def)

lemma inv_responses_addHook: "inv_responses st \<Longrightarrow> inv_responses (addHook n h st)"
  by (auto simp add: inv_responses_def addHook_def list_all_iff explained_append)

lemma inv_responses_disconnect: "inv_responses st \<Longrightarrow> inv_responses (disconnect st)"
  by (simp add: inv_responses_def)

lemma inv_responses_processSignal:
  assumes "inv_responses st"
  shows "inv_responses (processSignal sig st)"
proof (cases "shuttingDown st")
  case True
  with assms show ?thesis by (simp add: processSignal_def inv_responses_log)
next
  case False
  let ?st3 = "abort ((log_call Info (Some (SignalCtx sig)) ProcessingSignal st)\<lparr>shuttingDown := True\<rparr>)"
  let ?r = "\<lparr>signal = sig, withError = False, forceExit = False, index = 0,
             globalTimeout = FiresAt (clock ?st3 + delay (shutdownTimeout ?st3))\<rparr>"
  have "handlers ?st3 = drop (index ?r) (handlers ?st3)" by simp
  moreover have "inv_responses ?st3" using assms by (simp add: inv_responses_def)
  ultimately have "inv_responses (loop (handlers ?st3) ?r ?st3)" by (rule loop_responses)
  with False show ?thesis by (simp add: processSignal_def Let_def)
qed

lemma inv_responses_processErrors:
  "inv_responses st \<Longrightarrow> inv_responses (processErrors v st)"
  unfolding processErrors_def Let_def
  by (rule inv_responses_processSignal) (rule inv_responses_log)

lemma inv_responses_resume:
  assumes "inv_race st" and "inv_responses st"
  shows "inv_responses (resume st)"
proof (cases "suspended st")
  case None
  with assms(2) show ?thesis by (simp add: resume_def)
next
  case (Some a)
  let ?st2 = "emit_effect (Finished (index (frame a)) (settlesAt a) (outcome a))
               (st\<lparr>suspended := None, clock := settlesAt a\<rparr>)"
  let ?rep = "report (hookName a) (outcome a) (frame a) ?st2"
  let ?r2 = "(fst ?rep)\<lparr>index := Suc (index (frame a)),
               globalTimeout := (if outcome a = Resolved (Text ''global-timeout'') then Fired
                                 else globalTimeout (frame a))\<rparr>"
  from assms(1) Some obtain p where i: "index (frame a) < length (handlers st)"
    and p: "returned (handler (handlers st ! index (frame a))) = Some p"
    and r: "race p (clock st) (perHookTimeout st) (globalTimeout (frame a)) = (settlesAt a, outcome a)"
    by (auto simp add: inv_race_def split: option.splits)
  from p r have "explains (perHookTimeout st) (handler (handlers st ! index (frame a))) (outcome a)"
    by (rule returned_explains)
  with i assms(2) have "inv_responses (snd ?rep)"
    by (simp add: inv_responses_def explained_def)
  moreover have "drop (index ?r2) (handlers (snd ?rep)) = drop (index ?r2) (handlers (snd ?rep))" ..
  ultimately have "inv_responses (loop (drop (index ?r2) (handlers (snd ?rep))) ?r2 (snd ?rep))"
    by (intro loop_responses refl)
  with Some show ?thesis by (simp add: resume_def Let_def case_prod_beta)
qed

lemma invariant5_call:
  assumes "invariant5 st"
  shows "invariant5 (call l arg st)"
proof -
  from assms have i: "invariant st" and r: "inv_responses st"
    by (simp_all add: invariant5_def)
  have "inv_responses (call l arg st)"
    using r
    by (cases l)
      (simp_all add: inv_responses_processSignal inv_responses_processErrors onExit_def
        inv_responses_log)
  with invariant_call [OF i, of l arg] show ?thesis by (simp add: invariant5_def)
qed

lemma invariant5_step: "invariant5 st \<Longrightarrow> invariant5 (step i st)"
proof (cases i)
  case (AddHook n h)
  assume "invariant5 st"
  with AddHook show ?thesis
    using invariant_step [of st i] by (simp add: invariant5_def inv_responses_addHook)
next
  case Disconnect
  assume "invariant5 st"
  with Disconnect show ?thesis
    using invariant_step [of st i] by (simp add: invariant5_def inv_responses_disconnect)
next
  case (Emit ev arg)
  assume "invariant5 st"
  then have "invariant5 (emit ev arg st)"
    unfolding emit_def by (rule fold_invariant) (simp add: invariant5_call)
  with Emit show ?thesis by simp
next
  case Resume
  assume "invariant5 st"
  with Resume show ?thesis
    using invariant_step [of st i]
    by (simp add: invariant5_def invariant_def inv_responses_resume)
qed

lemma reachable_invariant5: "invariant5 (exec ins (construct opts ls now ctl))"
proof -
  have "invariant5 (construct opts ls now ctl)"
    by (simp add: invariant5_def invariant_construct)
       (simp add: inv_responses_def construct_def)
  then show ?thesis
    unfolding exec_def by (rule fold_invariant) (simp add: invariant5_step)
qed

lemma finished_responses: "(Finished i t r \<in> set T) = ((i, t, r) \<in> set (responses T))"
proof (induction T)
  case Nil
  then show ?case by simp
next
  case (Cons e T)
  then show ?case by (cases e) auto
qed

lemma response_failed:
  "(i, t, r) \<in> set (responses T) \<Longrightarrow> failed_response r \<Longrightarrow> hadError T"
proof (induction T)
  case Nil
  then show ?case by simp
next
  case (Cons e T)
  then show ?case by (cases e) auto
qed

lemma response_deadline:
  "(i, t, Resolved (Text ''global-timeout'')) \<in> set (responses T) \<Longrightarrow> deadlineReached T"
proof (induction T)
  case Nil
  then show ?case by simp
next
  case (Cons e T)
  then show ?case by (cases e) auto
qed

lemma called_hook_response:
  assumes "inv_struct st" and "suspended st = None" and "i \<in> set (invoked (trace st))"
  shows "\<exists>t r. (i, t, r) \<in> set (responses (trace st))"
proof -
  from assms have "i < length (responses (trace st))"
    using invoked_reachable [OF assms(1)] by simp
  moreover from assms(1) have m: "map fst (responses (trace st)) = [0..<length (responses (trace st))]"
    by (simp add: inv_struct_def)
  ultimately have "fst (responses (trace st) ! i) = i"
    using nth_map [of i "responses (trace st)" fst] by simp
  moreover have "responses (trace st) ! i \<in> set (responses (trace st))"
    using \<open>i < length (responses (trace st))\<close> by simp
  ultimately show ?thesis by (metis prod.collapse)
qed

lemma response_explained:
  "inv_responses st \<Longrightarrow> (i, t, r) \<in> set (responses (trace st)) \<Longrightarrow>
     i < length (handlers st) \<and> explains (perHookTimeout st) (handler (handlers st ! i)) r"
  by (auto simp add: inv_responses_def list_all_iff explained_def)

lemma response_unique:
  assumes "inv_struct st" and "(i, t, r) \<in> set (responses (trace st))"
    and "(i, t', r') \<in> set (responses (trace st))"
  shows "t' = t \<and> r' = r"
proof -
  from assms(1) have "distinct (map fst (responses (trace st)))"
    by (simp add: inv_struct_def)
  then have inj: "inj_on fst (set (responses (trace st)))"
    by (simp add: distinct_map)
  show ?thesis
    using inj_onD [OF inj, of "(i, t, r)" "(i, t', r')"] assms(2,3) by simp
qed

lemma explains_cases:
  "explains per b r \<Longrightarrow>
     r = Resolved Undefined \<or> failed_response r \<or> r = Resolved (Text ''global-timeout'')"
proof (cases b)
  case (Throws e)
  assume "explains per b r"
  with Throws show ?thesis by simp
next
  case ReturnsVoid
  assume "explains per b r"
  with ReturnsVoid show ?thesis by simp
next
  case (Returns p)
  assume "explains per b r"
  with Returns show ?thesis
    by (cases p; cases "case p of Settled s \<Rightarrow> s | SettlesAfter d s \<Rightarrow> s | NeverSettles \<Rightarrow> Fulfils")
       (auto split: if_splits)
qed

lemma failing_response_exit:
  assumes "inv_flags st" and "completed st" and "(i, t, r) \<in> set (responses (trace st))"
    and "failed_response r \<or> r = Resolved (Text ''global-timeout'')"
  shows "exits (trace st) = [1]"
proof -
  from assms(3,4) have "hadError (trace st) \<or> deadlineReached (trace st)"
    using response_failed [of i t r "trace st"] response_deadline [of i t "trace st"] by blast
  with assms(1,2) show ?thesis by (simp add: inv_flags_def completed_def)
qed

lemma awaited_outcome:
  assumes "inv_race st" and "suspended st = Some a"
  shows "explains (perHookTimeout st) (handler (handlers st ! index (frame a))) (outcome a)"
proof -
  from assms obtain p where
    p: "returned (handler (handlers st ! index (frame a))) = Some p"
    and r: "race p (clock st) (perHookTimeout st) (globalTimeout (frame a)) = (settlesAt a, outcome a)"
    by (auto simp add: inv_race_def split: option.splits)
  from p r show ?thesis by (rule returned_explains)
qed

lemma failing_outcome_exit:
  assumes "invariant st" and "suspended st = Some a" and "outcome a \<noteq> Resolved Undefined"
    and "completed (exec later (resume st))"
  shows "exits (trace (exec later (resume st))) = [1]"
proof -
  from assms(1) have rc: "inv_race st" by (simp add: invariant_def)
  have "explains (perHookTimeout st) (handler (handlers st ! index (frame a))) (outcome a)"
    using rc assms(2) by (rule awaited_outcome)
  with assms(3) have o: "failed_response (outcome a) \<or> outcome a = Resolved (Text ''global-timeout'')"
    using explains_cases by blast
  obtain X where "trace (resume st) =
      trace st @ Finished (index (frame a)) (settlesAt a) (outcome a) # X"
    using resume_first [OF assms(2)] by blast
  with o have h: "hadError (trace (resume st)) \<or> deadlineReached (trace (resume st))" by auto
  have inv': "invariant (resume st)" using invariant_step [OF assms(1), of Resume] by simp
  from h show ?thesis
  proof
    assume "hadError (trace (resume st))"
    with inv' show ?thesis using assms(4) by (rule failure_gives_exit_1)
  next
    assume "deadlineReached (trace (resume st))"
    with inv' show ?thesis using assms(4) deadline_gives_exit_1 by blast
  qed
qed

lemma failing_hook_exit:
  assumes "invariant5 st" and "completed st" and "i \<in> set (invoked (trace st))"
    and "handler (handlers st ! i) = Throws e
       \<or> handler (handlers st ! i) = Returns (Settled (Rejects e))
       \<or> handler (handlers st ! i) = Returns (SettlesAfter d (Rejects e))
       \<or> handler (handlers st ! i) = Returns NeverSettles
       \<or> handler (handlers st ! i) = Returns (SettlesAfter d Fulfils)
         \<and> delay (perHookTimeout st) < d"
  shows "exits (trace st) = [1]"
proof -
  from assms(1) have f: "inv_flags st" and s: "inv_struct st" and rs: "inv_responses st"
    by (simp_all add: invariant5_def invariant_def)
  from assms(2) have n: "suspended st = None" by (simp add: completed_def)
  from s n assms(3) obtain t r where x: "(i, t, r) \<in> set (responses (trace st))"
    using called_hook_response by blast
  with rs have "explains (perHookTimeout st) (handler (handlers st ! i)) r"
    using response_explained by blast
  with assms(4) have "failed_response r \<or> r = Resolved (Text ''global-timeout'')"
    by (auto split: if_splits)
  with f assms(2) x show ?thesis by (rule failing_response_exit)
qed

lemma prompt_hooks_exit:
  assumes "invariant5 st" and "completed st"
    and "\<forall>i \<in> set (invoked (trace st)).
           handler (handlers st ! i) = ReturnsVoid
         \<or> handler (handlers st ! i) = Returns (Settled Fulfils)"
  shows "exits (trace st) = [0]"
proof -
  from assms(1) have f: "inv_flags st" and s: "inv_struct st" and rs: "inv_responses st"
    by (simp_all add: invariant5_def invariant_def)
  from assms(2) have n: "suspended st = None" by (simp add: completed_def)
  have "snd (snd x) = Resolved Undefined" if "x \<in> set (responses (trace st))" for x
  proof -
    from that have "fst x \<in> set (map fst (responses (trace st)))" by simp
    also have "map fst (responses (trace st)) = invoked (trace st)"
      using s n invoked_reachable [OF s] by (simp add: inv_struct_def)
    finally have "handler (handlers st ! fst x) = ReturnsVoid
         \<or> handler (handlers st ! fst x) = Returns (Settled Fulfils)"
      using assms(3) by blast
    moreover have "explains (perHookTimeout st) (handler (handlers st ! fst x)) (snd (snd x))"
      using rs that response_explained [of st "fst x" "fst (snd x)" "snd (snd x)"] by simp
    ultimately show ?thesis by auto
  qed
  then have "list_all (\<lambda>x. snd (snd x) = Resolved Undefined) (responses (trace st))"
    by (simp add: list_all_iff)
  then have "\<not> hadError (trace st) \<and> \<not> deadlineReached (trace st)"
    by (rule all_fulfilled_no_flags)
  with f assms(2) show ?thesis by (simp add: inv_flags_def completed_def)
qed

lemma unsuccessful_in_segment:
  assumes "Log lv c (Unsuccessful n) \<in> set (segment lg H x)"
  shows "\<exists>e. snd (snd x) = Rejected e \<and> n = name (H ! fst x) \<and> lv = Error
             \<and> c = Some (hook_error_context e)"
proof (cases "snd (snd x)")
  case (Resolved v)
  with assms show ?thesis
    by (auto simp add: segment_def announce_def report_line_def split: if_splits)
next
  case (Rejected e)
  with assms show ?thesis
    by (auto simp add: segment_def announce_def report_line_def split: if_splits)
qed

lemma unsuccessful_line:
  assumes "inv_struct st" and "Log lv c (Unsuccessful n) \<in> set (trace st)"
  shows "\<exists>i t e. Finished i t (Rejected e) \<in> set (trace st) \<and> n = name (handlers st ! i)
              \<and> lv = Error \<and> c = Some (hook_error_context e)"
proof -
  from assms(2) have "Log lv c (Unsuccessful n) \<in> set (hook_trace (trace st))"
    by (simp add: hook_trace_def)
  with assms(1) have "Log lv c (Unsuccessful n)
      \<in> set (segments (logger st) (handlers st) (trace st)) \<union> set (current st)"
    by (simp add: inv_struct_def)
  moreover have "Log lv c (Unsuccessful n) \<notin> set (current st)"
    by (auto simp add: current_def announce_def split: option.splits)
  ultimately obtain x where x: "x \<in> set (responses (trace st))"
    and s: "Log lv c (Unsuccessful n) \<in> set (segment (logger st) (handlers st) x)"
    by (auto simp add: segments_def)
  from s obtain e where e: "snd (snd x) = Rejected e" "n = name (handlers st ! fst x)"
    "lv = Error" "c = Some (hook_error_context e)"
    using unsuccessful_in_segment by blast
  from x e(1) have "(fst x, fst (snd x), Rejected e) \<in> set (responses (trace st))"
    by (metis prod.collapse)
  then have "Finished (fst x) (fst (snd x)) (Rejected e) \<in> set (trace st)"
    by (simp add: finished_responses)
  with e show ?thesis by blast
qed

lemma late_rejection_dropped:
  assumes "inv_responses st"
    and "handler (handlers st ! i) = Returns (SettlesAfter d (Rejects e))"
    and "delay (perHookTimeout st) < d"
  shows "Finished i t (Rejected e') \<notin> set (trace st)"
proof
  assume "Finished i t (Rejected e') \<in> set (trace st)"
  then have "(i, t, Rejected e') \<in> set (responses (trace st))"
    by (simp add: finished_responses)
  with assms(1) have "explains (perHookTimeout st) (handler (handlers st ! i)) (Rejected e')"
    using response_explained by blast
  with assms(2,3) show False by simp
qed

section \<open>Exit status\<close>

text \<open>
  Claim C1.  In every state that a run of the program reaches and in which the shutdown
  sequence has completed, \<^verbatim>\<open>process.exit\<close> has been called exactly once, with status 1
  if some hook failed or timed out (\<open>hadError\<close>: a \<^verbatim>\<open>try\<close> statement ended with the
  \<^verbatim>\<open>"timeout"\<close> marker or in the \<^verbatim>\<open>catch\<close> block) or the global deadline was reached
  (\<open>deadlineReached\<close>: a race was won by the \<^verbatim>\<open>"global-timeout"\<close> marker), and with status
  0 otherwise.  In terms of what the handlers do:
  \<^item> the status is 1 when the handler of some hook that was called throws, returns a
    promise that rejects (at once or later), returns a promise that never settles, or
    returns a promise that fulfils only after the per-hook delay;
  \<^item> the status is 1 when a race settled with anything but \<^verbatim>\<open>undefined\<close>;
  \<^item> the status is 0 when every handler that was called returns no promise or a
    fulfilled one, and whenever every race was won by a fulfilling hook;
  \<^item> a hook wins its race by fulfilling when its promise fulfils before both timers
    fire: awaited with the global timer pending, a promise that fulfils \<open>d\<close>
    milliseconds after the handler returned, with \<open>d\<close> less than the per-hook delay
    and the time of settling before the deadline (the time of the trigger plus the
    global delay), makes the race settle with \<^verbatim>\<open>undefined\<close> at that time.

  The delays are the configured ones as Node takes them (\<open>delay\<close>).
\<close>

theorem exit_status_from_flags:
  assumes "st = exec ins (construct opts ls now ctl)"
  shows "(completed st \<longrightarrow>
            exits (trace st) = [if hadError (trace st) \<or> deadlineReached (trace st) then 1 else 0])
       \<and> (completed st \<and> i \<in> set (invoked (trace st))
          \<and> (handler (handlers st ! i) = Throws e
             \<or> handler (handlers st ! i) = Returns (Settled (Rejects e))
             \<or> handler (handlers st ! i) = Returns (SettlesAfter d (Rejects e))
             \<or> handler (handlers st ! i) = Returns NeverSettles
             \<or> handler (handlers st ! i) = Returns (SettlesAfter d Fulfils)
               \<and> delay (perHookTimeout st) < d) \<longrightarrow>
            exits (trace st) = [1])
       \<and> (suspended st = Some a \<and> outcome a \<noteq> Resolved Undefined
          \<and> completed (exec later (resume st)) \<longrightarrow>
            exits (trace (exec later (resume st))) = [1])
       \<and> (completed st
          \<and> (\<forall>k \<in> set (invoked (trace st)).
                handler (handlers st ! k) = ReturnsVoid
              \<or> handler (handlers st ! k) = Returns (Settled Fulfils)) \<longrightarrow>
            exits (trace st) = [0])
       \<and> (completed st
          \<and> list_all (\<lambda>x. snd (snd x) = Resolved Undefined) (responses (trace st)) \<longrightarrow>
            exits (trace st) = [0])
       \<and> (suspended st = Some a \<and> globalTimeout (frame a) \<noteq> Fired
          \<and> handler (handlers st ! index (frame a)) = Returns (SettlesAfter d Fulfils)
          \<and> d < delay (perHookTimeout st)
          \<and> clock st + d < now + delay (shutdownTimeout st) \<longrightarrow>
            outcome a = Resolved Undefined \<and> settlesAt a = clock st + d)"
proof -
  have inv4: "invariant4 now st"
    unfolding assms by (rule reachable_invariant4)
  have inv5: "invariant5 st"
    unfolding assms by (rule reachable_invariant5)
  from inv4 have inv: "invariant st" and f: "inv_flags st" and rc: "inv_race st"
    and dl: "inv_deadline now st"
    by (simp_all add: invariant4_def invariant_def)
  have a: "completed st \<longrightarrow>
      exits (trace st) = [if hadError (trace st) \<or> deadlineReached (trace st) then 1 else 0]"
  proof
    assume "completed st"
    with f show "exits (trace st) =
        [if hadError (trace st) \<or> deadlineReached (trace st) then 1 else 0]"
      by (simp add: inv_flags_def completed_def)
  qed
  have b: "completed st \<and> i \<in> set (invoked (trace st))
          \<and> (handler (handlers st ! i) = Throws e
             \<or> handler (handlers st ! i) = Returns (Settled (Rejects e))
             \<or> handler (handlers st ! i) = Returns (SettlesAfter d (Rejects e))
             \<or> handler (handlers st ! i) = Returns NeverSettles
             \<or> handler (handlers st ! i) = Returns (SettlesAfter d Fulfils)
               \<and> delay (perHookTimeout st) < d) \<longrightarrow>
            exits (trace st) = [1]"
    using failing_hook_exit [OF inv5, of i e d] by blast
  have c: "suspended st = Some a \<and> outcome a \<noteq> Resolved Undefined
          \<and> completed (exec later (resume st)) \<longrightarrow>
            exits (trace (exec later (resume st))) = [1]"
    using failing_outcome_exit [OF inv, of a later] by blast
  have d: "completed st
          \<and> (\<forall>k \<in> set (invoked (trace st)).
                handler (handlers st ! k) = ReturnsVoid
              \<or> handler (handlers st ! k) = Returns (Settled Fulfils)) \<longrightarrow>
            exits (trace st) = [0]"
    using prompt_hooks_exit [OF inv5] by blast
  have e: "completed st
          \<and> list_all (\<lambda>x. snd (snd x) = Resolved Undefined) (responses (trace st)) \<longrightarrow>
            exits (trace st) = [0]"
    using a all_fulfilled_no_flags [of "trace st"] by auto
  have g: "suspended st = Some a \<and> globalTimeout (frame a) \<noteq> Fired
          \<and> handler (handlers st ! index (frame a)) = Returns (SettlesAfter d Fulfils)
          \<and> d < delay (perHookTimeout st)
          \<and> clock st + d < now + delay (shutdownTimeout st) \<longrightarrow>
            outcome a = Resolved Undefined \<and> settlesAt a = clock st + d"
  proof
    assume p: "suspended st = Some a \<and> globalTimeout (frame a) \<noteq> Fired
          \<and> handler (handlers st ! index (frame a)) = Returns (SettlesAfter d Fulfils)
          \<and> d < delay (perHookTimeout st)
          \<and> clock st + d < now + delay (shutdownTimeout st)"
    with dl have gt: "globalTimeout (frame a) = FiresAt (now + delay (shutdownTimeout st))"
      by (simp add: inv_deadline_def)
    from p have su: "suspended st = Some a"
      and h: "handler (handlers st ! index (frame a)) = Returns (SettlesAfter d Fulfils)"
      and lt: "d < delay (perHookTimeout st)" "clock st + d < now + delay (shutdownTimeout st)"
      by blast+
    from rc su h have "(settlesAt a, outcome a) =
        race (SettlesAfter d Fulfils) (clock st) (perHookTimeout st) (globalTimeout (frame a))"
      by (simp add: inv_race_def)
    with gt lt show "outcome a = Resolved Undefined \<and> settlesAt a = clock st + d"
      by simp
  qed
  from a b c d e g show ?thesis by (intro conjI)
qed

theorem exit_status_from_flags_witness:
  "completed (exec [AddHook ''a'' (Returns (Settled Fulfils)), AddHook ''b'' (Throws Null),
                    Emit ''SIGINT'' Undefined, Resume]
       (construct (Some \<lparr>signals_opt = Some [''SIGINT''], log_opt = True,
                           perHookTimeout_opt = Some 5, shutdownTimeout_opt = Some 10\<rparr>) [] 0 0))
   \<and> exits (trace (exec [AddHook ''a'' (Returns (Settled Fulfils)), AddHook ''b'' (Throws Null),
                    Emit ''SIGINT'' Undefined, Resume]
       (construct (Some \<lparr>signals_opt = Some [''SIGINT''], log_opt = True,
                           perHookTimeout_opt = Some 5, shutdownTimeout_opt = Some 10\<rparr>) [] 0 0))) = [1]
   \<and> completed (exec [AddHook ''c'' (Returns (Settled Fulfils)), AddHook ''d'' ReturnsVoid,
                    Emit ''SIGTERM'' Undefined, Resume, Resume]
       (construct (Some \<lparr>signals_opt = Some [''SIGTERM''], log_opt = True,
                           perHookTimeout_opt = Some 5, shutdownTimeout_opt = Some 10\<rparr>) [] 0 0))
   \<and> exits (trace (exec [AddHook ''c'' (Returns (Settled Fulfils)), AddHook ''d'' ReturnsVoid,
                    Emit ''SIGTERM'' Undefined, Resume, Resume]
       (construct (Some \<lparr>signals_opt = Some [''SIGTERM''], log_opt = True,
                           perHookTimeout_opt = Some 5, shutdownTimeout_opt = Some 10\<rparr>) [] 0 0))) = [0]
   \<and> suspended (exec [AddHook ''e'' (Returns (SettlesAfter 3 Fulfils)),
                    Emit ''SIGTERM'' Undefined]
       (construct (Some \<lparr>signals_opt = Some [''SIGTERM''], log_opt = True,
                           perHookTimeout_opt = Some 5, shutdownTimeout_opt = Some 10\<rparr>) [] 0 0))
     = Some \<lparr>frame = \<lparr>signal = ''SIGTERM'', withError = False, forceExit = False, index = 0,
                       globalTimeout = FiresAt 10\<rparr>,
              hookName = ''e'', settlesAt = 3, outcome = Resolved Undefined\<rparr>"
proof -
  let ?s1 = "exec [AddHook ''a'' (Returns (Settled Fulfils)), AddHook ''b'' (Throws Null),
                    Emit ''SIGINT'' Undefined, Resume]
       (construct (Some \<lparr>signals_opt = Some [''SIGINT''], log_opt = True,
                           perHookTimeout_opt = Some 5, shutdownTimeout_opt = Some 10\<rparr>) [] 0 0)"
  let ?s2 = "exec [AddHook ''c'' (Returns (Settled Fulfils)), AddHook ''d'' ReturnsVoid,
                    Emit ''SIGTERM'' Undefined, Resume, Resume]
       (construct (Some \<lparr>signals_opt = Some [''SIGTERM''], log_opt = True,
                           perHookTimeout_opt = Some 5, shutdownTimeout_opt = Some 10\<rparr>) [] 0 0)"
  let ?s3 = "exec [AddHook ''e'' (Returns (SettlesAfter 3 Fulfils)),
                    Emit ''SIGTERM'' Undefined]
       (construct (Some \<lparr>signals_opt = Some [''SIGTERM''], log_opt = True,
                           perHookTimeout_opt = Some 5, shutdownTimeout_opt = Some 10\<rparr>) [] 0 0)"
  let ?a = "\<lparr>frame = \<lparr>signal = ''SIGTERM'', withError = False, forceExit = False, index = 0,
                       globalTimeout = FiresAt 10\<rparr>,
              hookName = ''e'', settlesAt = 3::nat, outcome = Resolved Undefined\<rparr>"
  have c1: "completed ?s1" and i1: "1 \<in> set (invoked (trace ?s1))"
    and h1: "handler (handlers ?s1 ! 1) = Throws Null"
    by (simp_all add: machine_defs)
  have c2: "completed ?s2"
    and h2: "\<forall>k \<in> set (invoked (trace ?s2)).
                handler (handlers ?s2 ! k) = ReturnsVoid
              \<or> handler (handlers ?s2 ! k) = Returns (Settled Fulfils)"
    by (simp_all add: machine_defs)
  have su: "suspended ?s3 = Some ?a"
    by (simp add: machine_defs)
  from exit_status_from_flags [OF refl, where i = 1 and e = Null] c1 i1 h1
  have e1: "exits (trace ?s1) = [1]" by blast
  from exit_status_from_flags [OF refl] c2 h2
  have e2: "exits (trace ?s2) = [0]" by blast
  from c1 e1 c2 e2 su show ?thesis by blast
qed

section \<open>Triggers while shutting down\<close>

text \<open>
  Claim C2.  Only the first accepted trigger starts the shutdown sequence.  In every
  reachable state that is shutting down, a further call of \<^verbatim>\<open>#processSignal\<close> changes
  nothing but the log, to which it adds the one warning that names the signal; a
  trigger on an error channel adds its \<^verbatim>\<open>Uncaught/Unhandled\<close> error line and then that
  one warning for \<^verbatim>\<open>SIGUSR2\<close>.  Whatever the sequence of inputs, \<^verbatim>\<open>abort()\<close> has fired at
  most once, no handler has been called twice, and \<^verbatim>\<open>process.exit\<close> has been called at
  most once: exactly once when the sequence has completed.
\<close>

theorem later_triggers_ignored:
  assumes "st = exec ins (construct opts ls now ctl)"
  shows "(shuttingDown st \<longrightarrow>
            processSignal sig st =
              st\<lparr>trace := trace st @
                    (if logger st then [Log Warn (Some (SignalCtx sig)) Ignoring] else [])\<rparr>
          \<and> processErrors v st =
              st\<lparr>trace := trace st @
                    (if logger st
                     then [Log Error (Some (if typeof v = ''object'' then Raw v else Wrapped v)) Uncaught,
                           Log Warn (Some (SignalCtx ''SIGUSR2'')) Ignoring]
                     else [])\<rparr>)
       \<and> count_list (trace st) AbortFired \<le> 1
       \<and> distinct (invoked (trace st))
       \<and> length (exits (trace st)) = (if completed st then 1 else 0)"
proof -
  have inv: "invariant st"
    unfolding assms by (rule reachable_invariant)
  then have f: "inv_flags st" and s: "inv_struct st"
    by (simp_all add: invariant_def)
  have a: "shuttingDown st \<longrightarrow>
            processSignal sig st =
              st\<lparr>trace := trace st @
                    (if logger st then [Log Warn (Some (SignalCtx sig)) Ignoring] else [])\<rparr>
          \<and> processErrors v st =
              st\<lparr>trace := trace st @
                    (if logger st
                     then [Log Error (Some (if typeof v = ''object'' then Raw v else Wrapped v)) Uncaught,
                           Log Warn (Some (SignalCtx ''SIGUSR2'')) Ignoring]
                     else [])\<rparr>"
    by (simp add: processSignal_def processErrors_def log_call_def emit_effect_def)
  have b: "count_list (trace st) AbortFired \<le> 1"
  proof (cases "shuttingDown st")
    case True
    with f show ?thesis by (simp add: inv_flags_def)
  next
    case False
    with f have "list_all idle_effect (trace st)" by (simp add: inv_flags_def)
    then show ?thesis using idle_effect_facts [of "trace st"] by simp
  qed
  have c: "distinct (invoked (trace st))"
    by (simp add: invoked_reachable [OF s])
  have d: "length (exits (trace st)) = (if completed st then 1 else 0)"
  proof (cases "shuttingDown st")
    case True
    with f show ?thesis by (auto simp add: inv_flags_def completed_def split: option.splits)
  next
    case False
    with f have "list_all idle_effect (trace st)" by (simp add: inv_flags_def)
    then show ?thesis using False idle_effect_facts [of "trace st"] by (simp add: completed_def)
  qed
  from a b c d show ?thesis by blast
qed

theorem later_triggers_ignored_witness:
  "shuttingDown (exec [AddHook ''a'' (Returns NeverSettles), Emit ''SIGINT'' Undefined]
       (construct (Some \<lparr>signals_opt = Some [''SIGINT''], log_opt = True,
                           perHookTimeout_opt = Some 5, shutdownTimeout_opt = Some 10\<rparr>) [] 0 0))
   \<and> trace (processSignal ''SIGINT''
        (exec [AddHook ''a'' (Returns NeverSettles), Emit ''SIGINT'' Undefined]
          (construct (Some \<lparr>signals_opt = Some [''SIGINT''], log_opt = True,
                           perHookTimeout_opt = Some 5, shutdownTimeout_opt = Some 10\<rparr>) [] 0 0)))
     = [Log Info None (Registered ''a''), Log Info (Some (SignalCtx ''SIGINT'')) ProcessingSignal,
        AbortFired, Log Info None (ProcessingHook ''a''), Invoked 0,
        Log Warn (Some (SignalCtx ''SIGINT'')) Ignoring]"
proof -
  let ?st = "exec [AddHook ''a'' (Returns NeverSettles), Emit ''SIGINT'' Undefined]
       (construct (Some \<lparr>signals_opt = Some [''SIGINT''], log_opt = True,
                           perHookTimeout_opt = Some 5, shutdownTimeout_opt = Some 10\<rparr>) [] 0 0)"
  have sd: "shuttingDown ?st" and lg: "logger ?st"
    by (simp_all add: machine_defs)
  have t: "trace ?st = [Log Info None (Registered ''a''),
        Log Info (Some (SignalCtx ''SIGINT'')) ProcessingSignal,
        AbortFired, Log Info None (ProcessingHook ''a''), Invoked 0]"
    by (simp add: machine_defs)
  from later_triggers_ignored [OF refl, where sig = "''SIGINT''" and v = Undefined] sd
  have "processSignal ''SIGINT'' ?st =
          ?st\<lparr>trace := trace ?st @
                (if logger ?st then [Log Warn (Some (SignalCtx ''SIGINT'')) Ignoring] else [])\<rparr>"
    by blast
  then have "trace (processSignal ''SIGINT'' ?st) =
          trace ?st @ [Log Warn (Some (SignalCtx ''SIGINT'')) Ignoring]"
    using lg by simp
  with sd t show ?thesis by simp
qed

section \<open>The cancellation signal\<close>

text \<open>
  Claim C8.  In every reachable state the abort signal is signalled exactly when the
  manager is shutting down, and \<^verbatim>\<open>abort()\<close> has fired once then and never before.  It
  fires when a trigger is accepted, right after the \<^verbatim>\<open>Processing exit signal\<close> line,
  and nothing of any hook (processing line, handler call, report) stands in the trace
  before it.  No later input resets it, and the accessor \<^verbatim>\<open>abortSignal\<close> keeps returning
  the signal of the controller made by the constructor; it is a plain read of the
  state.
\<close>

theorem cancellation_signal_fires_once:
  assumes "st = exec ins (construct opts ls now ctl)"
  shows "aborted (abortSignal st) = shuttingDown st
       \<and> count_list (trace st) AbortFired = (if shuttingDown st then 1 else 0)
       \<and> hook_trace (takeWhile (\<lambda>e. e \<noteq> AbortFired) (trace st)) = []
       \<and> (\<not> shuttingDown st \<longrightarrow>
            take (length (trace st) + (if logger st then 2 else 1)) (trace (processSignal sig st)) =
              trace st @ (if logger st then [Log Info (Some (SignalCtx sig)) ProcessingSignal] else [])
                @ [AbortFired])
       \<and> (aborted (abortSignal st) \<longrightarrow> aborted (abortSignal (exec later st)))
       \<and> ident (abortSignal (exec later st)) = ctl"
proof -
  have inv: "invariant2 st"
    unfolding assms by (rule reachable_invariant2)
  then have f: "inv_flags st" and af: "abort_first (trace st)"
    by (simp_all add: invariant2_def invariant_def)
  have "invariant2 (exec later st)"
    unfolding assms exec_append [symmetric] by (rule reachable_invariant2)
  then have f': "inv_flags (exec later st)"
    by (simp add: invariant2_def invariant_def)
  have a: "aborted (abortSignal st) = shuttingDown st"
    using f by (auto simp add: inv_flags_def abortSignal_def)
  have b: "count_list (trace st) AbortFired = (if shuttingDown st then 1 else 0)"
  proof (cases "shuttingDown st")
    case True
    with f show ?thesis by (simp add: inv_flags_def)
  next
    case False
    with f have "list_all idle_effect (trace st)" by (simp add: inv_flags_def)
    then show ?thesis using False idle_effect_facts [of "trace st"] by simp
  qed
  have c: "hook_trace (takeWhile (\<lambda>e. e \<noteq> AbortFired) (trace st)) = []"
    using af by (simp add: abort_first_def)
  have d: "\<not> shuttingDown st \<longrightarrow>
            take (length (trace st) + (if logger st then 2 else 1)) (trace (processSignal sig st)) =
              trace st @ (if logger st then [Log Info (Some (SignalCtx sig)) ProcessingSignal] else [])
                @ [AbortFired]"
  proof
    assume n: "\<not> shuttingDown st"
    with f have "\<not> aborted (abortController st)" by (simp add: inv_flags_def)
    with n obtain X where "trace (processSignal sig st) =
           trace st @ (if logger st then [Log Info (Some (SignalCtx sig)) ProcessingSignal] else [])
           @ [AbortFired] @ X"
      using processSignal_start by blast
    then show "take (length (trace st) + (if logger st then 2 else 1)) (trace (processSignal sig st)) =
              trace st @ (if logger st then [Log Info (Some (SignalCtx sig)) ProcessingSignal] else [])
                @ [AbortFired]"
      by simp
  qed
  have e: "aborted (abortSignal st) \<longrightarrow> aborted (abortSignal (exec later st))"
    using a f' exec_shuttingDown [of st later] by (auto simp add: inv_flags_def abortSignal_def)
  have g: "ident (abortSignal (exec later st)) = ctl"
    by (simp add: assms abortSignal_def construct_def)
  from a b c d e g show ?thesis by blast
qed

theorem cancellation_signal_fires_once_witness:
  "\<not> shuttingDown (exec [AddHook ''a'' (Returns NeverSettles)]
       (construct (Some \<lparr>signals_opt = Some [''SIGINT''], log_opt = True,
                           perHookTimeout_opt = Some 5, shutdownTimeout_opt = Some 10\<rparr>) [] 0 7))
   \<and> take 3 (trace (processSignal ''SIGINT'' (exec [AddHook ''a'' (Returns NeverSettles)]
       (construct (Some \<lparr>signals_opt = Some [''SIGINT''], log_opt = True,
                           perHookTimeout_opt = Some 5, shutdownTimeout_opt = Some 10\<rparr>) [] 0 7))))
      = [Log Info None (Registered ''a''), Log Info (Some (SignalCtx ''SIGINT'')) ProcessingSignal,
         AbortFired]
   \<and> ident (abortSignal (exec [Emit ''SIGINT'' Undefined, Resume] (exec [AddHook ''a'' (Returns NeverSettles)]
       (construct (Some \<lparr>signals_opt = Some [''SIGINT''], log_opt = True,
                           perHookTimeout_opt = Some 5, shutdownTimeout_opt = Some 10\<rparr>) [] 0 7)))) = 7"
proof -
  let ?st = "exec [AddHook ''a'' (Returns NeverSettles)]
       (construct (Some \<lparr>signals_opt = Some [''SIGINT''], log_opt = True,
                           perHookTimeout_opt = Some 5, shutdownTimeout_opt = Some 10\<rparr>) [] 0 7)"
  have sd: "\<not> shuttingDown ?st" and lg: "logger ?st"
    and t: "trace ?st = [Log Info None (Registered ''a'')]"
    by (simp_all add: machine_defs)
  from cancellation_signal_fires_once [OF refl, where sig = "''SIGINT''" and later = "[Emit ''SIGINT'' Undefined, Resume]"]
  have h: "(\<not> shuttingDown ?st \<longrightarrow>
            take (length (trace ?st) + (if logger ?st then 2 else 1)) (trace (processSignal ''SIGINT'' ?st)) =
              trace ?st @ (if logger ?st then [Log Info (Some (SignalCtx ''SIGINT'')) ProcessingSignal] else [])
                @ [AbortFired])"
    and i: "ident (abortSignal (exec [Emit ''SIGINT'' Undefined, Resume] ?st)) = 7"
    by blast+
  from h sd have "take (length (trace ?st) + (if logger ?st then 2 else 1)) (trace (processSignal ''SIGINT'' ?st)) =
              trace ?st @ (if logger ?st then [Log Info (Some (SignalCtx ''SIGINT'')) ProcessingSignal] else [])
                @ [AbortFired]"
    by blast
  then have "take 3 (trace (processSignal ''SIGINT'' ?st)) =
     [Log Info None (Registered ''a''), Log Info (Some (SignalCtx ''SIGINT'')) ProcessingSignal,
         AbortFired]"
    unfolding t using lg by simp
  with sd i show ?thesis by blast
qed

section \<open>Disconnecting\<close>

text \<open>
  Claim C9.  Take any reachable state of a manager that was constructed on a process
  whose earlier listeners all belong to other code.  After \<^verbatim>\<open>disconnect()\<close> none of the
  manager's listeners is left on the process (neither on the two error channels, nor
  on a configured signal, nor on \<^verbatim>\<open>exit\<close>), and a configured signal has no listener at
  all.  So an event emitted then, whichever it is, leaves the state as it is: no log
  line, no call of a handler, no exit.  A second \<^verbatim>\<open>disconnect()\<close> changes nothing, and
  \<^verbatim>\<open>disconnect()\<close> itself changes only the listener table: the registry and the
  \<^verbatim>\<open>#shuttingDown\<close> latch stay as they are.
\<close>

theorem disconnect_releases_process:
  assumes "st = exec ins (construct opts ls now ctl)"
    and "list_all (\<lambda>el. \<not> own (snd el)) ls"
  shows "list_all (\<lambda>el. \<not> own (snd el)) (listeners (disconnect st))
       \<and> list_all (\<lambda>s. filter (\<lambda>el. fst el = s) (listeners (disconnect st)) = []) (signals st)
       \<and> emit ev arg (disconnect st) = disconnect st
       \<and> disconnect (disconnect st) = disconnect st
       \<and> disconnect st = st\<lparr>listeners := listeners (disconnect st)\<rparr>
       \<and> handlers (disconnect st) = handlers st
       \<and> shuttingDown (disconnect st) = shuttingDown st"
proof -
  have inv: "inv_listeners st"
    unfolding assms(1) by (rule inv_listeners_exec) (rule inv_listeners_construct [OF assms(2)])
  have a: "list_all (\<lambda>el. \<not> own (snd el)) (listeners (disconnect st))"
    using inv by (rule inv_listeners_disconnect)
  have b: "list_all (\<lambda>s. filter (\<lambda>el. fst el = s) (listeners (disconnect st)) = []) (signals st)"
  proof -
    have "filter (\<lambda>el. fst el = s) (released (signals st) (listeners st)) = []"
      if "s \<in> set (signals st)" for s
      using that released_no_signal [of _ "signals st" "listeners st"]
      by (auto simp add: filter_empty_conv)
    then show ?thesis by (simp add: list_all_iff listeners_disconnect)
  qed
  have c: "emit ev arg (disconnect st) = disconnect st"
    using a by (rule emit_foreign)
  have "list_all (\<lambda>el. fst el \<notin> set (signals st)) (listeners (disconnect st))"
    using released_no_signal [of _ "signals st" "listeners st"]
    by (auto simp add: list_all_iff listeners_disconnect)
  with a have "released (signals (disconnect st)) (listeners (disconnect st)) = listeners (disconnect st)"
    by (intro released_idem) simp_all
  then have d: "disconnect (disconnect st) = disconnect st"
    by (subst disconnect_record) simp
  have e: "disconnect st = st\<lparr>listeners := listeners (disconnect st)\<rparr>"
    by (subst disconnect_record) (simp add: listeners_disconnect)
  from a b c d e show ?thesis by simp
qed

theorem disconnect_releases_process_witness:
  "list_all (\<lambda>el. \<not> own (snd el)) [(''SIGINT'', Foreign 1), (''exit'', Foreign 2)]
   \<and> listeners (disconnect (exec [AddHook ''a'' ReturnsVoid]
          (construct (Some \<lparr>signals_opt = Some [''SIGINT''], log_opt = True,
                           perHookTimeout_opt = Some 5, shutdownTimeout_opt = Some 10\<rparr>)
             [(''SIGINT'', Foreign 1), (''exit'', Foreign 2)] 0 0)))
       = [(''exit'', Foreign 2)]
   \<and> trace (emit ''SIGINT'' Undefined (disconnect (exec [AddHook ''a'' ReturnsVoid]
          (construct (Some \<lparr>signals_opt = Some [''SIGINT''], log_opt = True,
                           perHookTimeout_opt = Some 5, shutdownTimeout_opt = Some 10\<rparr>)
             [(''SIGINT'', Foreign 1), (''exit'', Foreign 2)] 0 0))))
       = [Log Info None (Registered ''a'')]"
proof -
  let ?ls = "[(''SIGINT'', Foreign 1), (''exit'', Foreign 2)]"
  let ?st = "exec [AddHook ''a'' ReturnsVoid]
          (construct (Some \<lparr>signals_opt = Some [''SIGINT''], log_opt = True,
                           perHookTimeout_opt = Some 5, shutdownTimeout_opt = Some 10\<rparr>) ?ls 0 0)"
  have f: "list_all (\<lambda>el. \<not> own (snd el)) ?ls" by simp
  have l: "listeners (disconnect ?st) = [(''exit'', Foreign 2)]"
    by (simp add: machine_defs)
  have t: "trace (disconnect ?st) = [Log Info None (Registered ''a'')]"
    by (simp add: machine_defs)
  from disconnect_releases_process [OF refl f, where ev = "''SIGINT''" and arg = Undefined]
  have "emit ''SIGINT'' Undefined (disconnect ?st) = disconnect ?st" by blast
  with f l t show ?thesis by simp
qed

section \<open>Contexts of the failure lines\<close>

text \<open>
  Claim C10.  The two failure lines wrap their error differently.  The line of
  \<^verbatim>\<open>#processErrors\<close> carries the value itself when \<^verbatim>\<open>typeof\<close> of it is \<^verbatim>\<open>"object"\<close>, which
  holds for \<^verbatim>\<open>null\<close>, and the wrapper \<^verbatim>\<open>{ error }\<close> otherwise.  The line for a hook whose
  failure reaches the \<^verbatim>\<open>catch\<close> block, by a rejected race or by a handler that throws,
  carries the value itself only when it is an instance of \<^verbatim>\<open>Error\<close> and the wrapper
  otherwise: a plain object, \<^verbatim>\<open>null\<close> and \<^verbatim>\<open>undefined\<close> (a rejection with no reason) are
  wrapped.
\<close>

theorem failure_line_contexts:
  "(logger st \<longrightarrow>
      trace (processErrors v st) ! length (trace st) =
        Log Error (Some (if typeof v = ''object'' then Raw v else Wrapped v)) Uncaught
    \<and> trace (processErrors Null st) ! length (trace st) = Log Error (Some (Raw Null)) Uncaught)
   \<and> (logger st \<and> suspended st = Some a \<and> outcome a = Rejected e \<longrightarrow>
        trace (resume st) ! Suc (length (trace st)) =
          Log Error (Some (if instanceof_Error e then Raw e else Wrapped e)) (Unsuccessful (hookName a)))
   \<and> (logger st \<and> handler h = Throws e \<longrightarrow>
        trace (loop (h # hs) r st) ! (length (trace st) + 3) =
          Log Error (Some (if instanceof_Error e then Raw e else Wrapped e)) (Unsuccessful (name h)))
   \<and> (logger st \<and> suspended st = Some a \<and> outcome a = Rejected e
        \<and> (e = PlainObject s \<or> e = Null \<or> e = Undefined) \<longrightarrow>
        trace (resume st) ! Suc (length (trace st)) =
          Log Error (Some (Wrapped e)) (Unsuccessful (hookName a)))"
proof -
  have pe: "trace (processErrors w st) ! length (trace st) =
        Log Error (Some (if typeof w = ''object'' then Raw w else Wrapped w)) Uncaught"
    if "logger st" for w
  proof -
    let ?st1 = "log_call Error (Some (if typeof w = ''object'' then Raw w else Wrapped w)) Uncaught st"
    obtain X where "trace (processSignal ''SIGUSR2'' ?st1) = trace ?st1 @ X"
      using processSignal_extends by blast
    then have "trace (processErrors w st) =
        trace st @ Log Error (Some (if typeof w = ''object'' then Raw w else Wrapped w)) Uncaught # X"
      using that by (simp add: processErrors_def Let_def)
    then show ?thesis by (simp only: nth_append_length)
  qed
  have rs: "trace (resume st) ! Suc (length (trace st)) =
          Log Error (Some (if instanceof_Error e then Raw e else Wrapped e)) (Unsuccessful (hookName a))"
    if "logger st" "suspended st = Some a" "outcome a = Rejected e"
  proof -
    let ?st2 = "emit_effect (Finished (index (frame a)) (settlesAt a) (outcome a))
               (st\<lparr>suspended := None, clock := settlesAt a\<rparr>)"
    let ?rep = "report (hookName a) (outcome a) (frame a) ?st2"
    let ?r2 = "(fst ?rep)\<lparr>index := Suc (index (frame a)),
               globalTimeout := (if outcome a = Resolved (Text ''global-timeout'') then Fired
                                 else globalTimeout (frame a))\<rparr>"
    obtain X where "trace (loop (drop (index ?r2) (handlers (snd ?rep))) ?r2 (snd ?rep)) = trace (snd ?rep) @ X"
      using loop_extends by blast
    then have "trace (resume st) = (trace st @ [Finished (index (frame a)) (settlesAt a) (Rejected e)])
        @ Log Error (Some (if instanceof_Error e then Raw e else Wrapped e)) (Unsuccessful (hookName a)) # X"
      using that
      by (simp add: resume_def Let_def case_prod_beta report_line_def hook_error_context_def)
    then show ?thesis
      using nth_append_length [of "trace st @ [Finished (index (frame a)) (settlesAt a) (Rejected e)]"]
      by simp
  qed
  have lp: "trace (loop (h # hs) r st) ! (length (trace st) + 3) =
          Log Error (Some (if instanceof_Error e then Raw e else Wrapped e)) (Unsuccessful (name h))"
    if "logger st" "handler h = Throws e"
  proof -
    let ?st3 = "emit_effect (Finished (index r) (clock st) (Rejected e))
                   (emit_effect (Invoked (index r)) (log_call Info None (ProcessingHook (name h)) st))"
    let ?st4 = "snd (report (name h) (Rejected e) r ?st3)"
    let ?r' = "(fst (report (name h) (Rejected e) r ?st3))\<lparr>index := Suc (index r)\<rparr>"
    obtain X where "trace (loop hs ?r' ?st4) = trace ?st4 @ X" using loop_extends by blast
    then have "trace (loop (h # hs) r st) =
        (trace st @ [Log Info None (ProcessingHook (name h)), Invoked (index r),
                     Finished (index r) (clock st) (Rejected e)])
        @ Log Error (Some (if instanceof_Error e then Raw e else Wrapped e)) (Unsuccessful (name h)) # X"
      using that
      by (simp add: Let_def case_prod_beta report_line_def hook_error_context_def)
    then show ?thesis
      using nth_append_length [of "trace st @ [Log Info None (ProcessingHook (name h)), Invoked (index r),
                     Finished (index r) (clock st) (Rejected e)]"]
      by simp
  qed
  show ?thesis
    using pe [of v] pe [of Null] rs lp by auto
qed

theorem failure_line_contexts_witness:
  "logger (exec [AddHook ''foo'' (Returns (Settled (Rejects Undefined))), Emit ''SIGINT'' Undefined]
       (construct (Some \<lparr>signals_opt = Some [''SIGINT''], log_opt = True,
                           perHookTimeout_opt = Some 5, shutdownTimeout_opt = Some 10\<rparr>) [] 0 0))
   \<and> trace (resume (exec [AddHook ''foo'' (Returns (Settled (Rejects Undefined))), Emit ''SIGINT'' Undefined]
       (construct (Some \<lparr>signals_opt = Some [''SIGINT''], log_opt = True,
                           perHookTimeout_opt = Some 5, shutdownTimeout_opt = Some 10\<rparr>) [] 0 0))) ! 6
      = Log Error (Some (Wrapped Undefined)) (Unsuccessful ''foo'')"
proof -
  let ?st = "exec [AddHook ''foo'' (Returns (Settled (Rejects Undefined))), Emit ''SIGINT'' Undefined]
       (construct (Some \<lparr>signals_opt = Some [''SIGINT''], log_opt = True,
                           perHookTimeout_opt = Some 5, shutdownTimeout_opt = Some 10\<rparr>) [] 0 0)"
  let ?a = "\<lparr>frame = \<lparr>signal = ''SIGINT'', withError = False, forceExit = False, index = 0,
                        globalTimeout = FiresAt 10\<rparr>,
             hookName = ''foo'', settlesAt = 0, outcome = Rejected Undefined\<rparr>"
  have lg: "logger ?st" and su: "suspended ?st = Some ?a" and n: "length (trace ?st) = 5"
    by (simp_all add: machine_defs)
  from failure_line_contexts [of ?st _ ?a Undefined] lg su
  have "trace (resume ?st) ! Suc (length (trace ?st)) =
          Log Error (Some (if instanceof_Error Undefined then Raw Undefined else Wrapped Undefined))
            (Unsuccessful (hookName ?a))"
    by simp
  with lg n show ?thesis by simp
qed

section \<open>Order of the hooks\<close>

text \<open>
  Claim C6.  Hooks run one after the other, in the order of the registry.  In every
  reachable state the part of the trace that concerns hooks is, for the hooks 0, 1, 2,
  ... in turn, the processing line of the hook, the call of its handler, the end of
  its \<^verbatim>\<open>try\<close> statement (the race has settled, or the handler has thrown) and its
  report line, followed, while the sequence is suspended, by the processing line and
  the call of the hook that is awaited.  So the processing line and the call of hook
  \<open>N + 1\<close> come after everything of hook \<open>N\<close>; in particular, wherever the handler of
  hook \<open>N + 1\<close> is called, the \<^verbatim>\<open>try\<close> statement of hook \<open>N\<close> has ended before.
\<close>

theorem hooks_run_in_registration_order:
  assumes "st = exec ins (construct opts ls now ctl)"
  shows "hook_trace (trace st) = segments (logger st) (handlers st) (trace st) @ current st
       \<and> map fst (responses (trace st)) = [0..<length (responses (trace st))]
       \<and> length (responses (trace st)) \<le> length (handlers st)
       \<and> invoked (trace st) =
            [0..<length (responses (trace st)) + (if suspended st = None then 0 else 1)]
       \<and> started_after_previous (trace st)"
proof -
  have inv: "invariant3 st"
    unfolding assms by (rule reachable_invariant3)
  then have s: "inv_struct st" and o: "started_after_previous (trace st)"
    by (simp_all add: invariant3_def invariant_def)
  from s have "length (responses (trace st)) \<le> length (handlers st)"
    by (auto simp add: inv_struct_def split: option.splits)
  with s o invoked_reachable [OF s] show ?thesis
    by (simp add: inv_struct_def)
qed

theorem hooks_run_in_registration_order_witness:
  "hook_trace (trace (exec [AddHook ''a'' (Returns (SettlesAfter 3 Fulfils)), AddHook ''b'' ReturnsVoid,
                            Emit ''SIGINT'' Undefined, Resume]
       (construct (Some \<lparr>signals_opt = Some [''SIGINT''], log_opt = True,
                           perHookTimeout_opt = Some 5, shutdownTimeout_opt = Some 10\<rparr>) [] 0 0)))
     = [Log Info None (ProcessingHook ''a''), Invoked 0, Finished 0 3 (Resolved Undefined),
        Log Info None (Successful ''a''), Log Info None (ProcessingHook ''b''), Invoked 1]
   \<and> started_after_previous (trace (exec [AddHook ''a'' (Returns (SettlesAfter 3 Fulfils)), AddHook ''b'' ReturnsVoid,
                            Emit ''SIGINT'' Undefined, Resume]
       (construct (Some \<lparr>signals_opt = Some [''SIGINT''], log_opt = True,
                           perHookTimeout_opt = Some 5, shutdownTimeout_opt = Some 10\<rparr>) [] 0 0)))"
proof -
  let ?st = "exec [AddHook ''a'' (Returns (SettlesAfter 3 Fulfils)), AddHook ''b'' ReturnsVoid,
                            Emit ''SIGINT'' Undefined, Resume]
       (construct (Some \<lparr>signals_opt = Some [''SIGINT''], log_opt = True,
                           perHookTimeout_opt = Some 5, shutdownTimeout_opt = Some 10\<rparr>) [] 0 0)"
  have t: "trace ?st = [Log Info None (Registered ''a''), Log Info None (Registered ''b''),
        Log Info (Some (SignalCtx ''SIGINT'')) ProcessingSignal, AbortFired,
        Log Info None (ProcessingHook ''a''), Invoked 0, Finished 0 3 (Resolved Undefined),
        Log Info None (Successful ''a''), Log Info None (ProcessingHook ''b''), Invoked 1]"
    by (simp add: machine_defs)
  have "hook_trace (trace ?st) = [Log Info None (ProcessingHook ''a''), Invoked 0, Finished 0 3 (Resolved Undefined),
        Log Info None (Successful ''a''), Log Info None (ProcessingHook ''b''), Invoked 1]"
    unfolding t by simp
  with hooks_run_in_registration_order [OF refl, of _ _ _ _ _] show ?thesis by blast
qed

section \<open>Hooks added after shutdown has started\<close>

text \<open>
  Claim C7 says that the loop runs exactly the registry as it was when the trigger was
  accepted.  The loop iterates the live array \<^verbatim>\<open>this.#handlers\<close>, and an array iterator
  reads the length at every step: a hook that \<^verbatim>\<open>addHook\<close> appends while the sequence is
  suspended at an \<^verbatim>\<open>await\<close> is reached by the loop.  Below, hook \<open>b\<close> is added after the
  trigger, while hook \<open>a\<close> is awaited, and is processed, called and reported by the run.
\<close>

theorem hook_added_in_flight_is_run:
  "trace (exec [AddHook ''a'' (Returns NeverSettles), Emit ''SIGINT'' Undefined,
                AddHook ''b'' ReturnsVoid, Resume, Resume]
       (construct (Some \<lparr>signals_opt = Some [''SIGINT''], log_opt = True,
                           perHookTimeout_opt = Some 5, shutdownTimeout_opt = Some 10\<rparr>) [] 0 0))
   = [Log Info None (Registered ''a''),
      Log Info (Some (SignalCtx ''SIGINT'')) ProcessingSignal, AbortFired,
      Log Info None (ProcessingHook ''a''), Invoked 0,
      Log Info None (Registered ''b''),
      Finished 0 5 (Resolved (Text ''timeout'')), Log Info None (TimedOut ''a''),
      Log Info None (ProcessingHook ''b''), Invoked 1,
      Finished 1 5 (Resolved Undefined), Log Info None (Successful ''b''),
      Log Info (Some (SignalCtx ''SIGINT'')) Completed, Log Warn None NotGraceful, Exited 1]"
  by (simp add: machine_defs)

text \<open>
  Claim C7, amended.  The hooks that a run executes are the registry as it is when the
  loop ends: the registry at the trigger and, after it, every hook added while the
  sequence was in flight.  A hook added while the sequence is suspended is called by
  that run once the run completes; at the step that completes the run, the handlers
  called so far are exactly those of the whole registry, each once and in order; a
  hook added after the run has completed is never processed, called or reported.
\<close>

theorem run_covers_registry_at_loop_end:
  assumes "st = exec ins (construct opts ls now ctl)"
  shows "(in_flight st \<and> completed (exec later (addHook n h st)) \<longrightarrow>
            Invoked (length (handlers st)) \<in> set (trace (exec later (addHook n h st))))
       \<and> (\<not> completed st \<and> completed (step i st) \<longrightarrow>
            invoked (trace (step i st)) = [0..<length (handlers (step i st))])
       \<and> (completed st \<longrightarrow>
            hook_trace (trace (exec later (addHook n h st))) = hook_trace (trace st)
          \<and> invoked (trace (exec later (addHook n h st))) = invoked (trace st))
       \<and> invoked (trace st) = [0..<length (invoked (trace st))]
       \<and> length (invoked (trace st)) \<le> length (handlers st)"
proof -
  have inv: "invariant st"
    unfolding assms by (rule reachable_invariant)
  then have s: "inv_struct st" by (simp add: invariant_def)
  have a: "in_flight st \<and> completed (exec later (addHook n h st)) \<longrightarrow>
            Invoked (length (handlers st)) \<in> set (trace (exec later (addHook n h st)))"
  proof
    assume p: "in_flight st \<and> completed (exec later (addHook n h st))"
    have "invariant (addHook n h st)" using invariant_step [OF inv, of "AddHook n h"] by simp
    moreover have "suspended (addHook n h st) \<noteq> None" using p by (simp add: in_flight_def)
    moreover have "length (handlers st) < length (handlers (addHook n h st))" by simp
    ultimately have "length (handlers st) \<in> set (invoked (trace (exec later (addHook n h st))))"
      using p by (intro in_flight_hooks_run) simp_all
    then show "Invoked (length (handlers st)) \<in> set (trace (exec later (addHook n h st)))"
      by (simp add: invoked_mem)
  qed
  have b: "\<not> completed st \<and> completed (step i st) \<longrightarrow>
            invoked (trace (step i st)) = [0..<length (handlers (step i st))]"
    using inv by (auto intro: step_covers)
  have c: "completed st \<longrightarrow>
            hook_trace (trace (exec later (addHook n h st))) = hook_trace (trace st)
          \<and> invoked (trace (exec later (addHook n h st))) = invoked (trace st)"
  proof
    assume p: "completed st"
    then have "completed (addHook n h st)" by (simp add: completed_def)
    from exec_when_completed [OF this, of later]
    show "hook_trace (trace (exec later (addHook n h st))) = hook_trace (trace st)
          \<and> invoked (trace (exec later (addHook n h st))) = invoked (trace st)"
      by simp
  qed
  have d: "invoked (trace st) = [0..<length (invoked (trace st))]
       \<and> length (invoked (trace st)) \<le> length (handlers st)"
    using invoked_reachable [OF s] s
    by (auto simp add: inv_struct_def split: option.splits)
  from a b c d show ?thesis by blast
qed

theorem run_covers_registry_at_loop_end_witness:
  "in_flight (exec [AddHook ''a'' (Returns NeverSettles), Emit ''SIGINT'' Undefined]
       (construct (Some \<lparr>signals_opt = Some [''SIGINT''], log_opt = True,
                           perHookTimeout_opt = Some 5, shutdownTimeout_opt = Some 10\<rparr>) [] 0 0))
   \<and> completed (exec [Resume, Resume] (addHook ''b'' ReturnsVoid
       (exec [AddHook ''a'' (Returns NeverSettles), Emit ''SIGINT'' Undefined]
       (construct (Some \<lparr>signals_opt = Some [''SIGINT''], log_opt = True,
                           perHookTimeout_opt = Some 5, shutdownTimeout_opt = Some 10\<rparr>) [] 0 0))))
   \<and> Invoked 1 \<in> set (trace (exec [Resume, Resume] (addHook ''b'' ReturnsVoid
       (exec [AddHook ''a'' (Returns NeverSettles), Emit ''SIGINT'' Undefined]
       (construct (Some \<lparr>signals_opt = Some [''SIGINT''], log_opt = True,
                           perHookTimeout_opt = Some 5, shutdownTimeout_opt = Some 10\<rparr>) [] 0 0)))))"
proof -
  let ?st = "exec [AddHook ''a'' (Returns NeverSettles), Emit ''SIGINT'' Undefined]
       (construct (Some \<lparr>signals_opt = Some [''SIGINT''], log_opt = True,
                           perHookTimeout_opt = Some 5, shutdownTimeout_opt = Some 10\<rparr>) [] 0 0)"
  have f: "in_flight ?st" and n: "length (handlers ?st) = 1"
    by (simp_all add: machine_defs)
  have c: "completed (exec [Resume, Resume] (addHook ''b'' ReturnsVoid ?st))"
    by (simp add: machine_defs)
  from run_covers_registry_at_loop_end [OF refl, where later = "[Resume, Resume]" and n = "''b''"
      and h = ReturnsVoid] f c
  have "Invoked (length (handlers ?st)) \<in> set (trace (exec [Resume, Resume] (addHook ''b'' ReturnsVoid ?st)))"
    by blast
  with f c n show ?thesis by simp
qed

section \<open>Failing hooks\<close>

text \<open>
  Claim C5 says that the failure of every hook whose handler throws or rejects is
  caught and logged as unsuccessful.  A rejection that comes after a timer has won the
  race is dropped by \<^verbatim>\<open>Promise.race\<close>.  Below, the per-hook delay is 5 ms.  The promise of
  hook \<open>a\<close> rejects 7 ms after its handler returned: the per-hook timer fires at 5 ms and
  the hook is logged as timed out.  Hook \<open>b\<close> is awaited from 5 ms to 9 ms, so the
  rejection at 7 ms falls into the run, before \<^verbatim>\<open>process.exit\<close> is called at 9 ms; no
  unsuccessful line and no error are logged for it.
\<close>

theorem late_rejection_not_logged:
  "trace (exec [AddHook ''a'' (Returns (SettlesAfter 7 (Rejects (ErrorObject ''late'')))),
                AddHook ''b'' (Returns (SettlesAfter 4 Fulfils)),
                Emit ''SIGINT'' Undefined, Resume, Resume]
       (construct (Some \<lparr>signals_opt = Some [''SIGINT''], log_opt = True,
                           perHookTimeout_opt = Some 5, shutdownTimeout_opt = Some 100\<rparr>) [] 0 0))
   = [Log Info None (Registered ''a''), Log Info None (Registered ''b''),
      Log Info (Some (SignalCtx ''SIGINT'')) ProcessingSignal, AbortFired,
      Log Info None (ProcessingHook ''a''), Invoked 0,
      Finished 0 5 (Resolved (Text ''timeout'')), Log Info None (TimedOut ''a''),
      Log Info None (ProcessingHook ''b''), Invoked 1,
      Finished 1 9 (Resolved Undefined), Log Info None (Successful ''b''),
      Log Info (Some (SignalCtx ''SIGINT'')) Completed, Log Warn None NotGraceful, Exited 1]"
  by (simp add: machine_defs)

text \<open>
  Claim C5, amended.  The delays are the configured ones as Node takes them (\<open>delay\<close>),
  and the deadline is the time of the trigger plus the global delay.
  \<^item> For every hook whose handler throws, or whose promise rejects while its race is
    still open (it is rejected when the handler returns, or it rejects before the
    per-hook timer and the global timer fire), the failure reaches the \<^verbatim>\<open>catch\<close> block:
    the unsuccessful line with the error is logged, \<^verbatim>\<open>withError\<close> is set, the loop goes on
    with the next hook, and the completed run exits with status 1.
  \<^item> A rejection that comes after a timer has won the race is dropped.  When the
    promise rejects after the per-hook delay and the per-hook timer fires before the
    deadline, the race settles with the timeout marker and resuming logs the timed-out
    line only.  When the global timer has fired, or fires no later than the rejection
    and the per-hook timer, the race settles with the global-timeout marker.  In no
    reachable state has the \<^verbatim>\<open>try\<close> statement of a hook whose promise rejects after the
    per-hook delay ended in the \<^verbatim>\<open>catch\<close> block.
  \<^item> Every unsuccessful line of the trace is the report of a hook whose \<^verbatim>\<open>try\<close>
    statement ended in the \<^verbatim>\<open>catch\<close> block, with the name of that hook and the context of
    that error.
  \<^item> Every operation of the model returns a state, so nothing escapes the sequence.  No
    handler is called twice; at the step that completes the run every hook of the
    registry has been called exactly once; and from every reachable state that is
    shutting down, resuming the sequence as often as there are hooks completes it, with
    \<^verbatim>\<open>process.exit\<close> called once.
\<close>

theorem hook_failures_are_contained:
  assumes "st = exec ins (construct opts ls now ctl)"
  shows "(suspended st = Some a \<and> outcome a = Rejected e \<longrightarrow>
            resume st =
              loop (drop (Suc (index (frame a))) (handlers st))
                ((frame a)\<lparr>withError := True, index := Suc (index (frame a))\<rparr>)
                (st\<lparr>suspended := None, clock := settlesAt a,
                    trace := trace st @ Finished (index (frame a)) (settlesAt a) (Rejected e)
                      # (if logger st
                         then [Log Error (Some (hook_error_context e)) (Unsuccessful (hookName a))]
                         else [])\<rparr>)
          \<and> (completed (exec later (resume st)) \<longrightarrow> exits (trace (exec later (resume st))) = [1]))
       \<and> (handler h = Throws e \<longrightarrow>
            loop (h # hs) r st =
              loop hs (r\<lparr>withError := True, index := Suc (index r)\<rparr>)
                (st\<lparr>trace := trace st @ announce (logger st) (name h)
                      @ [Invoked (index r), Finished (index r) (clock st) (Rejected e)]
                      @ (if logger st
                         then [Log Error (Some (hook_error_context e)) (Unsuccessful (name h))]
                         else [])\<rparr>))
       \<and> (suspended st = Some a
            \<and> handler (handlers st ! index (frame a)) = Returns (Settled (Rejects e)) \<longrightarrow>
            outcome a = Rejected e \<and> settlesAt a = clock st)
       \<and> (suspended st = Some a
            \<and> handler (handlers st ! index (frame a)) = Returns (SettlesAfter d (Rejects e))
            \<and> globalTimeout (frame a) \<noteq> Fired
            \<and> d < delay (perHookTimeout st)
            \<and> clock st + d < now + delay (shutdownTimeout st) \<longrightarrow>
            outcome a = Rejected e \<and> settlesAt a = clock st + d)
       \<and> (suspended st = Some a
            \<and> handler (handlers st ! index (frame a)) = Returns (SettlesAfter d (Rejects e))
            \<and> globalTimeout (frame a) \<noteq> Fired
            \<and> delay (perHookTimeout st) < d
            \<and> clock st + delay (perHookTimeout st) < now + delay (shutdownTimeout st) \<longrightarrow>
            outcome a = Resolved (Text ''timeout'')
          \<and> settlesAt a = clock st + delay (perHookTimeout st)
          \<and> resume st =
              loop (drop (Suc (index (frame a))) (handlers st))
                ((frame a)\<lparr>withError := True, index := Suc (index (frame a))\<rparr>)
                (st\<lparr>suspended := None, clock := clock st + delay (perHookTimeout st),
                    trace := trace st
                      @ Finished (index (frame a)) (clock st + delay (perHookTimeout st))
                          (Resolved (Text ''timeout''))
                      # (if logger st then [Log Info None (TimedOut (hookName a))] else [])\<rparr>))
       \<and> (suspended st = Some a
            \<and> handler (handlers st ! index (frame a)) = Returns (SettlesAfter d (Rejects e))
            \<and> (globalTimeout (frame a) = Fired
               \<or> now + delay (shutdownTimeout st) \<le> clock st + d
                 \<and> now + delay (shutdownTimeout st) \<le> clock st + delay (perHookTimeout st)) \<longrightarrow>
            outcome a = Resolved (Text ''global-timeout''))
       \<and> (handler (handlers st ! i) = Returns (SettlesAfter d (Rejects e))
            \<and> delay (perHookTimeout st) < d \<longrightarrow>
            Finished i t (Rejected e') \<notin> set (trace st))
       \<and> (Log lv c (Unsuccessful n) \<in> set (trace st) \<longrightarrow>
            (\<exists>k u x. Finished k u (Rejected x) \<in> set (trace st) \<and> n = name (handlers st ! k)
                    \<and> lv = Error \<and> c = Some (hook_error_context x)))
       \<and> distinct (invoked (trace st))
       \<and> (\<not> completed st \<and> completed (step j st) \<longrightarrow>
            invoked (trace (step j st)) = [0..<length (handlers (step j st))])
       \<and> (shuttingDown st \<longrightarrow>
            completed (exec (replicate (length (handlers st)) Resume) st)
          \<and> length (exits (trace (exec (replicate (length (handlers st)) Resume) st))) = 1)"
proof -
  have inv4: "invariant4 now st"
    unfolding assms by (rule reachable_invariant4)
  have inv5: "invariant5 st"
    unfolding assms by (rule reachable_invariant5)
  from inv4 have inv: "invariant st" and dl: "inv_deadline now st"
    by (simp_all add: invariant4_def)
  then have s: "inv_struct st" and rc: "inv_race st" by (simp_all add: invariant_def)
  from inv5 have rs: "inv_responses st" by (simp add: invariant5_def)
  have a: "suspended st = Some a \<and> outcome a = Rejected e \<longrightarrow>
            resume st =
              loop (drop (Suc (index (frame a))) (handlers st))
                ((frame a)\<lparr>withError := True, index := Suc (index (frame a))\<rparr>)
                (st\<lparr>suspended := None, clock := settlesAt a,
                    trace := trace st @ Finished (index (frame a)) (settlesAt a) (Rejected e)
                      # (if logger st
                         then [Log Error (Some (hook_error_context e)) (Unsuccessful (hookName a))]
                         else [])\<rparr>)
          \<and> (completed (exec later (resume st)) \<longrightarrow> exits (trace (exec later (resume st))) = [1])"
  proof
    assume p: "suspended st = Some a \<and> outcome a = Rejected e"
    then obtain X where "trace (resume st) =
        trace st @ Finished (index (frame a)) (settlesAt a) (outcome a) # X"
      using resume_first by blast
    with p have "hadError (trace (resume st))" by simp
    moreover have "invariant (resume st)" using invariant_step [OF inv, of Resume] by simp
    ultimately have "completed (exec later (resume st)) \<longrightarrow> exits (trace (exec later (resume st))) = [1]"
      using failure_gives_exit_1 by blast
    with p resume_rejected [of st a e]
    show "resume st =
              loop (drop (Suc (index (frame a))) (handlers st))
                ((frame a)\<lparr>withError := True, index := Suc (index (frame a))\<rparr>)
                (st\<lparr>suspended := None, clock := settlesAt a,
                    trace := trace st @ Finished (index (frame a)) (settlesAt a) (Rejected e)
                      # (if logger st
                         then [Log Error (Some (hook_error_context e)) (Unsuccessful (hookName a))]
                         else [])\<rparr>)
          \<and> (completed (exec later (resume st)) \<longrightarrow> exits (trace (exec later (resume st))) = [1])"
      by blast
  qed
  have b: "handler h = Throws e \<longrightarrow>
            loop (h # hs) r st =
              loop hs (r\<lparr>withError := True, index := Suc (index r)\<rparr>)
                (st\<lparr>trace := trace st @ announce (logger st) (name h)
                      @ [Invoked (index r), Finished (index r) (clock st) (Rejected e)]
                      @ (if logger st
                         then [Log Error (Some (hook_error_context e)) (Unsuccessful (name h))]
                         else [])\<rparr>)"
    using loop_throws by blast
  have c: "suspended st = Some a
            \<and> handler (handlers st ! index (frame a)) = Returns (Settled (Rejects e)) \<longrightarrow>
            outcome a = Rejected e \<and> settlesAt a = clock st"
    using rc by (auto simp add: inv_race_def)
  have g: "globalTimeout (frame a) = FiresAt (now + delay (shutdownTimeout st))"
    if "suspended st = Some a" and "globalTimeout (frame a) \<noteq> Fired"
    using that dl by (simp add: inv_deadline_def)
  have q: "(settlesAt a, outcome a) =
        race (SettlesAfter d (Rejects e)) (clock st) (perHookTimeout st) (globalTimeout (frame a))"
    if "suspended st = Some a"
      and "handler (handlers st ! index (frame a)) = Returns (SettlesAfter d (Rejects e))"
    using that rc by (simp add: inv_race_def)
  have d: "suspended st = Some a
            \<and> handler (handlers st ! index (frame a)) = Returns (SettlesAfter d (Rejects e))
            \<and> globalTimeout (frame a) \<noteq> Fired
            \<and> d < delay (perHookTimeout st)
            \<and> clock st + d < now + delay (shutdownTimeout st) \<longrightarrow>
            outcome a = Rejected e \<and> settlesAt a = clock st + d"
  proof
    assume p: "suspended st = Some a
            \<and> handler (handlers st ! index (frame a)) = Returns (SettlesAfter d (Rejects e))
            \<and> globalTimeout (frame a) \<noteq> Fired
            \<and> d < delay (perHookTimeout st)
            \<and> clock st + d < now + delay (shutdownTimeout st)"
    then have "(settlesAt a, outcome a) =
        race (SettlesAfter d (Rejects e)) (clock st) (perHookTimeout st)
          (FiresAt (now + delay (shutdownTimeout st)))"
      using q g by simp
    with p show "outcome a = Rejected e \<and> settlesAt a = clock st + d" by simp
  qed
  have l1: "suspended st = Some a
            \<and> handler (handlers st ! index (frame a)) = Returns (SettlesAfter d (Rejects e))
            \<and> globalTimeout (frame a) \<noteq> Fired
            \<and> delay (perHookTimeout st) < d
            \<and> clock st + delay (perHookTimeout st) < now + delay (shutdownTimeout st) \<longrightarrow>
            outcome a = Resolved (Text ''timeout'')
          \<and> settlesAt a = clock st + delay (perHookTimeout st)
          \<and> resume st =
              loop (drop (Suc (index (frame a))) (handlers st))
                ((frame a)\<lparr>withError := True, index := Suc (index (frame a))\<rparr>)
                (st\<lparr>suspended := None, clock := clock st + delay (perHookTimeout st),
                    trace := trace st
                      @ Finished (index (frame a)) (clock st + delay (perHookTimeout st))
                          (Resolved (Text ''timeout''))
                      # (if logger st then [Log Info None (TimedOut (hookName a))] else [])\<rparr>)"
  proof
    assume p: "suspended st = Some a
            \<and> handler (handlers st ! index (frame a)) = Returns (SettlesAfter d (Rejects e))
            \<and> globalTimeout (frame a) \<noteq> Fired
            \<and> delay (perHookTimeout st) < d
            \<and> clock st + delay (perHookTimeout st) < now + delay (shutdownTimeout st)"
    then have su: "suspended st = Some a" by blast
    from p have "(settlesAt a, outcome a) =
        race (SettlesAfter d (Rejects e)) (clock st) (perHookTimeout st)
          (FiresAt (now + delay (shutdownTimeout st)))"
      using q g by simp
    with p have o: "outcome a = Resolved (Text ''timeout'')"
      "settlesAt a = clock st + delay (perHookTimeout st)"
      by (simp_all add: timer_wins_def)
    note r = resume_timed_out [OF su o(1), unfolded o(2)]
    show "outcome a = Resolved (Text ''timeout'')
          \<and> settlesAt a = clock st + delay (perHookTimeout st)
          \<and> resume st =
              loop (drop (Suc (index (frame a))) (handlers st))
                ((frame a)\<lparr>withError := True, index := Suc (index (frame a))\<rparr>)
                (st\<lparr>suspended := None, clock := clock st + delay (perHookTimeout st),
                    trace := trace st
                      @ Finished (index (frame a)) (clock st + delay (perHookTimeout st))
                          (Resolved (Text ''timeout''))
                      # (if logger st then [Log Info None (TimedOut (hookName a))] else [])\<rparr>)"
      by (intro conjI) (rule o r)+
  qed
  have l2: "suspended st = Some a
            \<and> handler (handlers st ! index (frame a)) = Returns (SettlesAfter d (Rejects e))
            \<and> (globalTimeout (frame a) = Fired
               \<or> now + delay (shutdownTimeout st) \<le> clock st + d
                 \<and> now + delay (shutdownTimeout st) \<le> clock st + delay (perHookTimeout st)) \<longrightarrow>
            outcome a = Resolved (Text ''global-timeout'')"
  proof
    assume p: "suspended st = Some a
            \<and> handler (handlers st ! index (frame a)) = Returns (SettlesAfter d (Rejects e))
            \<and> (globalTimeout (frame a) = Fired
               \<or> now + delay (shutdownTimeout st) \<le> clock st + d
                 \<and> now + delay (shutdownTimeout st) \<le> clock st + delay (perHookTimeout st))"
    then have r: "(settlesAt a, outcome a) =
        race (SettlesAfter d (Rejects e)) (clock st) (perHookTimeout st) (globalTimeout (frame a))"
      using q by simp
    show "outcome a = Resolved (Text ''global-timeout'')"
    proof (cases "globalTimeout (frame a) = Fired")
      case True
      with r show ?thesis by simp
    next
      case False
      with p have "globalTimeout (frame a) = FiresAt (now + delay (shutdownTimeout st))"
        using g by simp
      with r p False show ?thesis by (simp add: timer_wins_def)
    qed
  qed
  have l3: "handler (handlers st ! i) = Returns (SettlesAfter d (Rejects e))
            \<and> delay (perHookTimeout st) < d \<longrightarrow>
            Finished i t (Rejected e') \<notin> set (trace st)"
    using late_rejection_dropped [OF rs] by blast
  have u: "Log lv c (Unsuccessful n) \<in> set (trace st) \<longrightarrow>
            (\<exists>k u x. Finished k u (Rejected x) \<in> set (trace st) \<and> n = name (handlers st ! k)
                    \<and> lv = Error \<and> c = Some (hook_error_context x))"
    using unsuccessful_line [OF s] by blast
  have e: "distinct (invoked (trace st))"
    by (simp add: invoked_reachable [OF s])
  have f: "\<not> completed st \<and> completed (step j st) \<longrightarrow>
            invoked (trace (step j st)) = [0..<length (handlers (step j st))]"
    using inv by (auto intro: step_covers)
  have k: "shuttingDown st \<longrightarrow>
            completed (exec (replicate (length (handlers st)) Resume) st)
          \<and> length (exits (trace (exec (replicate (length (handlers st)) Resume) st))) = 1"
    using inv shutdown_completes by blast
  from a b c d l1 l2 l3 u e f k show ?thesis by (intro conjI)
qed

theorem hook_failures_are_contained_witness:
  "shuttingDown (exec [AddHook ''a'' (Returns (SettlesAfter 7 (Rejects Null))),
                       AddHook ''b'' (Returns (Settled (Rejects Null))), Emit ''SIGINT'' Undefined]
       (construct (Some \<lparr>signals_opt = Some [''SIGINT''], log_opt = True,
                           perHookTimeout_opt = Some 5, shutdownTimeout_opt = Some 100\<rparr>) [] 0 0))
   \<and> completed (exec [Resume, Resume]
       (exec [AddHook ''a'' (Returns (SettlesAfter 7 (Rejects Null))),
                       AddHook ''b'' (Returns (Settled (Rejects Null))), Emit ''SIGINT'' Undefined]
       (construct (Some \<lparr>signals_opt = Some [''SIGINT''], log_opt = True,
                           perHookTimeout_opt = Some 5, shutdownTimeout_opt = Some 100\<rparr>) [] 0 0)))
   \<and> length (exits (trace (exec [Resume, Resume]
       (exec [AddHook ''a'' (Returns (SettlesAfter 7 (Rejects Null))),
                       AddHook ''b'' (Returns (Settled (Rejects Null))), Emit ''SIGINT'' Undefined]
       (construct (Some \<lparr>signals_opt = Some [''SIGINT''], log_opt = True,
                           perHookTimeout_opt = Some 5, shutdownTimeout_opt = Some 100\<rparr>) [] 0 0))))) = 1
   \<and> suspended (exec [AddHook ''a'' (Returns (SettlesAfter 7 (Rejects Null))),
                       AddHook ''b'' (Returns (Settled (Rejects Null))), Emit ''SIGINT'' Undefined]
       (construct (Some \<lparr>signals_opt = Some [''SIGINT''], log_opt = True,
                           perHookTimeout_opt = Some 5, shutdownTimeout_opt = Some 100\<rparr>) [] 0 0))
     = Some \<lparr>frame = \<lparr>signal = ''SIGINT'', withError = False, forceExit = False, index = 0,
                       globalTimeout = FiresAt 100\<rparr>,
              hookName = ''a'', settlesAt = 5, outcome = Resolved (Text ''timeout'')\<rparr>
   \<and> Finished 0 7 (Rejected Null) \<notin> set (trace (exec [AddHook ''a'' (Returns (SettlesAfter 7 (Rejects Null))),
                       AddHook ''b'' (Returns (Settled (Rejects Null))), Emit ''SIGINT'' Undefined,
                       Resume, Resume]
       (construct (Some \<lparr>signals_opt = Some [''SIGINT''], log_opt = True,
                           perHookTimeout_opt = Some 5, shutdownTimeout_opt = Some 100\<rparr>) [] 0 0)))
   \<and> Log Error (Some (Wrapped Null)) (Unsuccessful ''b'') \<in> set (trace (exec [AddHook ''a'' (Returns (SettlesAfter 7 (Rejects Null))),
                       AddHook ''b'' (Returns (Settled (Rejects Null))), Emit ''SIGINT'' Undefined,
                       Resume, Resume]
       (construct (Some \<lparr>signals_opt = Some [''SIGINT''], log_opt = True,
                           perHookTimeout_opt = Some 5, shutdownTimeout_opt = Some 100\<rparr>) [] 0 0)))"
proof -
  let ?st = "exec [AddHook ''a'' (Returns (SettlesAfter 7 (Rejects Null))),
                       AddHook ''b'' (Returns (Settled (Rejects Null))), Emit ''SIGINT'' Undefined]
       (construct (Some \<lparr>signals_opt = Some [''SIGINT''], log_opt = True,
                           perHookTimeout_opt = Some 5, shutdownTimeout_opt = Some 100\<rparr>) [] 0 0)"
  let ?fin = "exec [AddHook ''a'' (Returns (SettlesAfter 7 (Rejects Null))),
                       AddHook ''b'' (Returns (Settled (Rejects Null))), Emit ''SIGINT'' Undefined,
                       Resume, Resume]
       (construct (Some \<lparr>signals_opt = Some [''SIGINT''], log_opt = True,
                           perHookTimeout_opt = Some 5, shutdownTimeout_opt = Some 100\<rparr>) [] 0 0)"
  let ?a = "\<lparr>frame = \<lparr>signal = ''SIGINT'', withError = False, forceExit = False, index = 0,
                       globalTimeout = FiresAt 100\<rparr>,
              hookName = ''a'', settlesAt = 5::nat, outcome = Resolved (Text ''timeout'')\<rparr>"
  have sd: "shuttingDown ?st" and n: "length (handlers ?st) = 2"
    and su: "suspended ?st = Some ?a"
    by (simp_all add: machine_defs)
  have r: "replicate 2 Resume = [Resume, Resume]" by (simp add: numeral_2_eq_2)
  have "shuttingDown ?st \<longrightarrow>
      completed (exec (replicate (length (handlers ?st)) Resume) ?st)
          \<and> length (exits (trace (exec (replicate (length (handlers ?st)) Resume) ?st))) = 1"
    by (rule hook_failures_are_contained [OF refl, THEN conjunct2, THEN conjunct2, THEN conjunct2,
          THEN conjunct2, THEN conjunct2, THEN conjunct2, THEN conjunct2, THEN conjunct2,
          THEN conjunct2, THEN conjunct2])
  with sd have "completed (exec (replicate (length (handlers ?st)) Resume) ?st)
          \<and> length (exits (trace (exec (replicate (length (handlers ?st)) Resume) ?st))) = 1"
    by (rule rev_mp)
  then have k: "completed (exec [Resume, Resume] ?st)
          \<and> length (exits (trace (exec [Resume, Resume] ?st))) = 1"
    unfolding n r .
  have h: "handler (handlers ?fin ! 0) = Returns (SettlesAfter 7 (Rejects Null))"
    and p: "delay (perHookTimeout ?fin) < 7"
    and u: "Log Error (Some (Wrapped Null)) (Unsuccessful ''b'') \<in> set (trace ?fin)"
    by (simp_all add: machine_defs)
  have dropped: "handler (handlers ?fin ! 0) = Returns (SettlesAfter 7 (Rejects Null))
            \<and> delay (perHookTimeout ?fin) < 7 \<longrightarrow>
            Finished 0 7 (Rejected Null) \<notin> set (trace ?fin)"
    by (rule hook_failures_are_contained [OF refl, THEN conjunct2, THEN conjunct2, THEN conjunct2,
          THEN conjunct2, THEN conjunct2, THEN conjunct2, THEN conjunct1])
  have l: "Finished 0 7 (Rejected Null) \<notin> set (trace ?fin)"
    by (rule dropped [THEN mp]) (rule conjI h p)+
  show ?thesis
    by (intro conjI) (rule sd k [THEN conjunct1] k [THEN conjunct2] su l u)+
qed

section \<open>The per-hook timeout\<close>

text \<open>
  Claim C4.  Take a reachable state in which the sequence awaits a hook whose handler
  returned a promise that never settles (or settles only after the per-hook delay),
  with the global timer still pending, and let the per-hook timer fire before the
  global one: the time the hook was started plus the per-hook delay is less than the
  time of the trigger plus the global delay, both delays as Node takes them
  (\<open>delay\<close>).  Then the race settles with the \<^verbatim>\<open>"timeout"\<close> marker when the
  per-hook timer fires; resuming sets \<^verbatim>\<open>withError\<close>, logs the timed-out line of the hook
  and no other line for it, and goes on with the next hook.  A completed run in which
  every hook either fulfilled or timed out, and at least one timed out, has exited with
  status 1 and has logged the graceful-handlers warning and no global-timeout warning.
\<close>

theorem per_hook_timeout_recorded:
  assumes "st = exec ins (construct opts ls now ctl)"
  shows "(suspended st = Some a
          \<and> (handler (handlers st ! index (frame a)) = Returns NeverSettles
             \<or> handler (handlers st ! index (frame a)) = Returns (SettlesAfter d s)
               \<and> delay (perHookTimeout st) < d)
          \<and> globalTimeout (frame a) \<noteq> Fired
          \<and> clock st + delay (perHookTimeout st) < now + delay (shutdownTimeout st) \<longrightarrow>
            outcome a = Resolved (Text ''timeout'')
          \<and> settlesAt a = clock st + delay (perHookTimeout st)
          \<and> resume st =
              loop (drop (Suc (index (frame a))) (handlers st))
                ((frame a)\<lparr>withError := True, index := Suc (index (frame a))\<rparr>)
                (st\<lparr>suspended := None, clock := clock st + delay (perHookTimeout st),
                    trace := trace st
                      @ Finished (index (frame a)) (clock st + delay (perHookTimeout st))
                          (Resolved (Text ''timeout''))
                      # (if logger st
                         then [Log Info None (TimedOut (name (handlers st ! index (frame a))))]
                         else [])\<rparr>))
       \<and> (completed st
          \<and> list_all (\<lambda>x. snd (snd x) = Resolved Undefined \<or> snd (snd x) = Resolved (Text ''timeout''))
               (responses (trace st))
          \<and> list_ex (\<lambda>x. snd (snd x) = Resolved (Text ''timeout'')) (responses (trace st)) \<longrightarrow>
            exits (trace st) = [1]
          \<and> (logger st \<longrightarrow>
               Log Warn None NotGraceful \<in> set (trace st)
             \<and> Log Warn None GlobalReached \<notin> set (trace st)))"
proof -
  have inv: "invariant4 now st"
    unfolding assms by (rule reachable_invariant4)
  then have f: "inv_flags st" and s: "inv_struct st" and rc: "inv_race st"
    and dl: "inv_deadline now st"
    by (simp_all add: invariant4_def invariant_def)
  have a: "suspended st = Some a
          \<and> (handler (handlers st ! index (frame a)) = Returns NeverSettles
             \<or> handler (handlers st ! index (frame a)) = Returns (SettlesAfter d s)
               \<and> delay (perHookTimeout st) < d)
          \<and> globalTimeout (frame a) \<noteq> Fired
          \<and> clock st + delay (perHookTimeout st) < now + delay (shutdownTimeout st) \<longrightarrow>
            outcome a = Resolved (Text ''timeout'')
          \<and> settlesAt a = clock st + delay (perHookTimeout st)
          \<and> resume st =
              loop (drop (Suc (index (frame a))) (handlers st))
                ((frame a)\<lparr>withError := True, index := Suc (index (frame a))\<rparr>)
                (st\<lparr>suspended := None, clock := clock st + delay (perHookTimeout st),
                    trace := trace st
                      @ Finished (index (frame a)) (clock st + delay (perHookTimeout st))
                          (Resolved (Text ''timeout''))
                      # (if logger st
                         then [Log Info None (TimedOut (name (handlers st ! index (frame a))))]
                         else [])\<rparr>)"
  proof
    assume p: "suspended st = Some a
          \<and> (handler (handlers st ! index (frame a)) = Returns NeverSettles
             \<or> handler (handlers st ! index (frame a)) = Returns (SettlesAfter d s)
               \<and> delay (perHookTimeout st) < d)
          \<and> globalTimeout (frame a) \<noteq> Fired
          \<and> clock st + delay (perHookTimeout st) < now + delay (shutdownTimeout st)"
    with dl have g: "globalTimeout (frame a) = FiresAt (now + delay (shutdownTimeout st))"
      by (simp add: inv_deadline_def)
    from p have su: "suspended st = Some a"
      and h: "handler (handlers st ! index (frame a)) = Returns NeverSettles
             \<or> handler (handlers st ! index (frame a)) = Returns (SettlesAfter d s)
               \<and> delay (perHookTimeout st) < d"
      and lt: "clock st + delay (perHookTimeout st) < now + delay (shutdownTimeout st)"
      by blast+
    from rc su h have "(settlesAt a, outcome a) =
        timer_wins (clock st) (perHookTimeout st) (now + delay (shutdownTimeout st))"
      unfolding g [symmetric] by (auto simp add: inv_race_def g)
    with lt have o: "outcome a = Resolved (Text ''timeout'')"
      "settlesAt a = clock st + delay (perHookTimeout st)"
      by (simp_all add: timer_wins_def)
    from su s have n: "hookName a = name (handlers st ! index (frame a))"
      by (simp add: inv_struct_def)
    note r = resume_timed_out [OF su o(1), unfolded o(2) n]
    show "outcome a = Resolved (Text ''timeout'')
          \<and> settlesAt a = clock st + delay (perHookTimeout st)
          \<and> resume st =
              loop (drop (Suc (index (frame a))) (handlers st))
                ((frame a)\<lparr>withError := True, index := Suc (index (frame a))\<rparr>)
                (st\<lparr>suspended := None, clock := clock st + delay (perHookTimeout st),
                    trace := trace st
                      @ Finished (index (frame a)) (clock st + delay (perHookTimeout st))
                          (Resolved (Text ''timeout''))
                      # (if logger st
                         then [Log Info None (TimedOut (name (handlers st ! index (frame a))))]
                         else [])\<rparr>)"
      by (intro conjI) (rule o r)+
  qed
  have b: "completed st
          \<and> list_all (\<lambda>x. snd (snd x) = Resolved Undefined \<or> snd (snd x) = Resolved (Text ''timeout''))
               (responses (trace st))
          \<and> list_ex (\<lambda>x. snd (snd x) = Resolved (Text ''timeout'')) (responses (trace st)) \<longrightarrow>
            exits (trace st) = [1]
          \<and> (logger st \<longrightarrow>
               Log Warn None NotGraceful \<in> set (trace st)
             \<and> Log Warn None GlobalReached \<notin> set (trace st))"
  proof
    assume q: "completed st
          \<and> list_all (\<lambda>x. snd (snd x) = Resolved Undefined \<or> snd (snd x) = Resolved (Text ''timeout''))
               (responses (trace st))
          \<and> list_ex (\<lambda>x. snd (snd x) = Resolved (Text ''timeout'')) (responses (trace st))"
    then have he: "hadError (trace st)" and nd: "\<not> deadlineReached (trace st)"
      using no_deadline_response [of "trace st"] timeout_response [of "trace st"] by blast+
    from q have c: "shuttingDown st" "suspended st = None" by (simp_all add: completed_def)
    from f c have "exits (trace st) = [if hadError (trace st) \<or> deadlineReached (trace st) then 1 else 0]"
      and "logger st \<longrightarrow>
               (Log Warn None NotGraceful \<in> set (trace st)) = hadError (trace st)
             \<and> (Log Warn None GlobalReached \<in> set (trace st)) = deadlineReached (trace st)"
      by (simp_all add: inv_flags_def)
    with he nd show "exits (trace st) = [1]
          \<and> (logger st \<longrightarrow>
               Log Warn None NotGraceful \<in> set (trace st)
             \<and> Log Warn None GlobalReached \<notin> set (trace st))"
      by simp
  qed
  from a b show ?thesis by (rule conjI)
qed

text \<open>
  Three instances: a per-hook delay of 5 ms against a global delay of 10 ms; and
  configured per-hook delays of \<open>2^31\<close> and of \<open>- 1\<close>, which Node takes as 1 ms, against a
  global delay of 50 ms.
\<close>

theorem per_hook_timeout_recorded_witness:
  "suspended (exec [AddHook ''a'' (Returns NeverSettles), AddHook ''b'' ReturnsVoid,
                    Emit ''SIGINT'' Undefined]
       (construct (Some \<lparr>signals_opt = Some [''SIGINT''], log_opt = True,
                           perHookTimeout_opt = Some 5, shutdownTimeout_opt = Some 10\<rparr>) [] 0 0))
     = Some \<lparr>frame = \<lparr>signal = ''SIGINT'', withError = False, forceExit = False, index = 0,
                       globalTimeout = FiresAt 10\<rparr>,
              hookName = ''a'', settlesAt = 5, outcome = Resolved (Text ''timeout'')\<rparr>
   \<and> trace (resume (exec [AddHook ''a'' (Returns NeverSettles), AddHook ''b'' ReturnsVoid,
                    Emit ''SIGINT'' Undefined]
       (construct (Some \<lparr>signals_opt = Some [''SIGINT''], log_opt = True,
                           perHookTimeout_opt = Some 5, shutdownTimeout_opt = Some 10\<rparr>) [] 0 0)))
     = [Log Info None (Registered ''a''), Log Info None (Registered ''b''),
        Log Info (Some (SignalCtx ''SIGINT'')) ProcessingSignal, AbortFired,
        Log Info None (ProcessingHook ''a''), Invoked 0,
        Finished 0 5 (Resolved (Text ''timeout'')), Log Info None (TimedOut ''a''),
        Log Info None (ProcessingHook ''b''), Invoked 1]
   \<and> suspended (exec [AddHook ''c'' (Returns NeverSettles), Emit ''SIGINT'' Undefined]
       (construct (Some \<lparr>signals_opt = Some [''SIGINT''], log_opt = True,
                           perHookTimeout_opt = Some 2147483648, shutdownTimeout_opt = Some 50\<rparr>)
          [] 0 0))
     = Some \<lparr>frame = \<lparr>signal = ''SIGINT'', withError = False, forceExit = False, index = 0,
                       globalTimeout = FiresAt 50\<rparr>,
              hookName = ''c'', settlesAt = 1, outcome = Resolved (Text ''timeout'')\<rparr>
   \<and> suspended (exec [AddHook ''d'' (Returns NeverSettles), Emit ''SIGINT'' Undefined]
       (construct (Some \<lparr>signals_opt = Some [''SIGINT''], log_opt = True,
                           perHookTimeout_opt = Some (- 1), shutdownTimeout_opt = Some 50\<rparr>)
          [] 0 0))
     = Some \<lparr>frame = \<lparr>signal = ''SIGINT'', withError = False, forceExit = False, index = 0,
                       globalTimeout = FiresAt 50\<rparr>,
              hookName = ''d'', settlesAt = 1, outcome = Resolved (Text ''timeout'')\<rparr>"
proof -
  let ?st = "exec [AddHook ''a'' (Returns NeverSettles), AddHook ''b'' ReturnsVoid,
                    Emit ''SIGINT'' Undefined]
       (construct (Some \<lparr>signals_opt = Some [''SIGINT''], log_opt = True,
                           perHookTimeout_opt = Some 5, shutdownTimeout_opt = Some 10\<rparr>) [] 0 0)"
  let ?a = "\<lparr>frame = \<lparr>signal = ''SIGINT'', withError = False, forceExit = False, index = 0,
                       globalTimeout = FiresAt 10\<rparr>,
              hookName = ''a'', settlesAt = 5, outcome = Resolved (Text ''timeout'')\<rparr>"
  have st_eq: "?st =
      \<lparr>handlers = [\<lparr>name = ''a'', handler = Returns NeverSettles\<rparr>,
                   \<lparr>name = ''b'', handler = ReturnsVoid\<rparr>],
       signals = [''SIGINT''], shuttingDown = True,
       abortController = \<lparr>ident = 0, aborted = True\<rparr>, logger = True,
       perHookTimeout = 5, shutdownTimeout = 10,
       listeners = [(''uncaughtException'', ProcessErrors), (''unhandledRejection'', ProcessErrors),
                    (''SIGINT'', ProcessSignal ''SIGINT''), (''exit'', OnExit)],
       clock = 0,
       trace = [Log Info None (Registered ''a''), Log Info None (Registered ''b''),
                Log Info (Some (SignalCtx ''SIGINT'')) ProcessingSignal, AbortFired,
                Log Info None (ProcessingHook ''a''), Invoked 0],
       suspended = Some ?a\<rparr>"
    by (simp add: machine_defs)
  have t: "trace (resume ?st) =
       [Log Info None (Registered ''a''), Log Info None (Registered ''b''),
        Log Info (Some (SignalCtx ''SIGINT'')) ProcessingSignal, AbortFired,
        Log Info None (ProcessingHook ''a''), Invoked 0,
        Finished 0 5 (Resolved (Text ''timeout'')), Log Info None (TimedOut ''a''),
        Log Info None (ProcessingHook ''b''), Invoked 1]"
    unfolding st_eq by (simp add: machine_defs)
  have su: "suspended ?st = Some ?a"
    and h: "handler (handlers ?st ! index (frame ?a)) = Returns NeverSettles"
    and c: "clock ?st + delay (perHookTimeout ?st) < 0 + delay (shutdownTimeout ?st)"
    unfolding st_eq by (simp_all add: delay_def)
  have g: "globalTimeout (frame ?a) \<noteq> Fired" by simp
  let ?st2 = "exec [AddHook ''c'' (Returns NeverSettles), Emit ''SIGINT'' Undefined]
       (construct (Some \<lparr>signals_opt = Some [''SIGINT''], log_opt = True,
                           perHookTimeout_opt = Some 2147483648, shutdownTimeout_opt = Some 50\<rparr>)
          [] 0 0)"
  let ?a2 = "\<lparr>frame = \<lparr>signal = ''SIGINT'', withError = False, forceExit = False, index = 0,
                       globalTimeout = FiresAt 50\<rparr>,
              hookName = ''c'', settlesAt = 1::nat, outcome = Resolved (Text ''timeout'')\<rparr>"
  have su2: "suspended ?st2 = Some ?a2"
    and h2: "handler (handlers ?st2 ! index (frame ?a2)) = Returns NeverSettles"
    and c2: "clock ?st2 + delay (perHookTimeout ?st2) < 0 + delay (shutdownTimeout ?st2)"
    by (simp_all add: machine_defs)
  have g2: "globalTimeout (frame ?a2) \<noteq> Fired" by simp
  from per_hook_timeout_recorded [OF refl, where a = ?a2] su2 h2 g2 c2
  have o2: "outcome ?a2 = Resolved (Text ''timeout'')
      \<and> settlesAt ?a2 = clock ?st2 + delay (perHookTimeout ?st2)"
    by blast
  from per_hook_timeout_recorded [OF refl, where a = ?a] su h g c
  have o1: "outcome ?a = Resolved (Text ''timeout'') \<and> settlesAt ?a = clock ?st + delay (perHookTimeout ?st)
      \<and> resume ?st =
              loop (drop (Suc (index (frame ?a))) (handlers ?st))
                ((frame ?a)\<lparr>withError := True, index := Suc (index (frame ?a))\<rparr>)
                (?st\<lparr>suspended := None, clock := clock ?st + delay (perHookTimeout ?st),
                    trace := trace ?st
                      @ Finished (index (frame ?a)) (clock ?st + delay (perHookTimeout ?st))
                          (Resolved (Text ''timeout''))
                      # (if logger ?st
                         then [Log Info None (TimedOut (name (handlers ?st ! index (frame ?a))))]
                         else [])\<rparr>)"
    by blast
  let ?st3 = "exec [AddHook ''d'' (Returns NeverSettles), Emit ''SIGINT'' Undefined]
       (construct (Some \<lparr>signals_opt = Some [''SIGINT''], log_opt = True,
                           perHookTimeout_opt = Some (- 1), shutdownTimeout_opt = Some 50\<rparr>)
          [] 0 0)"
  let ?a3 = "\<lparr>frame = \<lparr>signal = ''SIGINT'', withError = False, forceExit = False, index = 0,
                       globalTimeout = FiresAt 50\<rparr>,
              hookName = ''d'', settlesAt = 1::nat, outcome = Resolved (Text ''timeout'')\<rparr>"
  have su3: "suspended ?st3 = Some ?a3"
    and h3: "handler (handlers ?st3 ! index (frame ?a3)) = Returns NeverSettles"
    and c3: "clock ?st3 + delay (perHookTimeout ?st3) < 0 + delay (shutdownTimeout ?st3)"
    by (simp_all add: machine_defs)
  have g3: "globalTimeout (frame ?a3) \<noteq> Fired" by simp
  from per_hook_timeout_recorded [OF refl, where a = ?a3] su3 h3 g3 c3
  have o3: "outcome ?a3 = Resolved (Text ''timeout'')
      \<and> settlesAt ?a3 = clock ?st3 + delay (perHookTimeout ?st3)"
    by blast
  from o1 o2 o3 su t su2 su3 show ?thesis by blast
qed

section \<open>The global deadline\<close>

text \<open>
  Claim C3 says that once the global timer has fired every remaining hook is skipped:
  its race resolves to the global-timeout marker and it is not reported.  That holds
  for a handler whose promise is still pending when it returns, and not for the
  others: \<^verbatim>\<open>Promise.race\<close> takes an already settled handler promise first.  Below, the
  global timer (10 ms) fires while hook \<open>a\<close> is awaited; hook \<open>b\<close>, whose promise is
  fulfilled when its handler returns, is then run and reported as successful.  The
  tests of the repository expect the same of a fulfilled hook raced against a global
  promise that is already resolved.
\<close>

theorem settled_hook_wins_after_deadline:
  "trace (exec [AddHook ''a'' (Returns NeverSettles), AddHook ''b'' (Returns (Settled Fulfils)),
                Emit ''SIGINT'' Undefined, Resume, Resume]
       (construct (Some \<lparr>signals_opt = Some [''SIGINT''], log_opt = True,
                           perHookTimeout_opt = Some 20, shutdownTimeout_opt = Some 10\<rparr>) [] 0 0))
   = [Log Info None (Registered ''a''), Log Info None (Registered ''b''),
      Log Info (Some (SignalCtx ''SIGINT'')) ProcessingSignal, AbortFired,
      Log Info None (ProcessingHook ''a''), Invoked 0,
      Finished 0 10 (Resolved (Text ''global-timeout'')),
      Log Info None (ProcessingHook ''b''), Invoked 1,
      Finished 1 10 (Resolved Undefined), Log Info None (Successful ''b''),
      Log Info (Some (SignalCtx ''SIGINT'')) Completed, Log Warn None GlobalReached, Exited 1]"
  by (simp add: machine_defs)

text \<open>
  Claim C3, amended.  Take a reachable state in which the sequence awaits a hook.
  \<^item> The deadline is the time of the trigger plus the global delay, as Node takes it
    (\<open>delay\<close>), and the global timer is pending only while the deadline lies ahead.
    If it is pending and fires no later than the per-hook timer would, and no later
    than the handler's promise settles (which never settles, or settles at the deadline
    or after it), the race settles with the global-timeout marker at the deadline.
  \<^item> When a race has settled with that marker, resuming sets \<^verbatim>\<open>forceExit\<close>, logs nothing
    for the hook and goes on with the next hook, the global timer being fired from then
    on; the completed run exits with status 1 and, with a logger, has logged the
    global-timeout warning.
  \<^item> The global timer has fired exactly when an earlier race settled with the marker.
    Then a hook whose handler returns a pending promise is skipped: its race settles at
    once, at the time it was started, with the marker, so by the second item it is not
    reported.  A hook whose handler returns no promise or a settled one wins its race,
    with \<^verbatim>\<open>undefined\<close> or with the rejection, and is reported.
\<close>

theorem global_deadline_forces_exit:
  assumes "st = exec ins (construct opts ls now ctl)"
  shows "(suspended st = Some a \<and> globalTimeout (frame a) \<noteq> Fired
          \<and> now + delay (shutdownTimeout st) \<le> clock st + delay (perHookTimeout st)
          \<and> (handler (handlers st ! index (frame a)) = Returns NeverSettles
             \<or> handler (handlers st ! index (frame a)) = Returns (SettlesAfter d s)
               \<and> now + delay (shutdownTimeout st) \<le> clock st + d) \<longrightarrow>
            outcome a = Resolved (Text ''global-timeout'')
          \<and> settlesAt a = now + delay (shutdownTimeout st))
       \<and> (suspended st = Some a \<and> outcome a = Resolved (Text ''global-timeout'') \<longrightarrow>
            resume st =
              loop (drop (Suc (index (frame a))) (handlers st))
                ((frame a)\<lparr>forceExit := True, index := Suc (index (frame a)), globalTimeout := Fired\<rparr>)
                (st\<lparr>suspended := None, clock := settlesAt a,
                    trace := trace st @ [Finished (index (frame a)) (settlesAt a)
                                           (Resolved (Text ''global-timeout''))]\<rparr>)
          \<and> (completed (exec later (resume st)) \<longrightarrow>
               exits (trace (exec later (resume st))) = [1]
             \<and> (logger st \<longrightarrow> Log Warn None GlobalReached \<in> set (trace (exec later (resume st))))))
       \<and> (suspended st = Some a \<longrightarrow>
            (globalTimeout (frame a) = Fired) = deadlineReached (trace st))
       \<and> (suspended st = Some a \<and> globalTimeout (frame a) \<noteq> Fired \<longrightarrow>
            clock st < now + delay (shutdownTimeout st))
       \<and> (suspended st = Some a \<and> globalTimeout (frame a) = Fired
          \<and> (handler (handlers st ! index (frame a)) = Returns NeverSettles
             \<or> handler (handlers st ! index (frame a)) = Returns (SettlesAfter d s)) \<longrightarrow>
            outcome a = Resolved (Text ''global-timeout'') \<and> settlesAt a = clock st)
       \<and> (suspended st = Some a
          \<and> (handler (handlers st ! index (frame a)) = ReturnsVoid
             \<or> handler (handlers st ! index (frame a)) = Returns (Settled Fulfils)) \<longrightarrow>
            outcome a = Resolved Undefined \<and> settlesAt a = clock st)
       \<and> (suspended st = Some a
          \<and> handler (handlers st ! index (frame a)) = Returns (Settled (Rejects e)) \<longrightarrow>
            outcome a = Rejected e \<and> settlesAt a = clock st)"
proof -
  have inv: "invariant4 now st"
    unfolding assms by (rule reachable_invariant4)
  then have i: "invariant st" and f: "inv_flags st" and rc: "inv_race st"
    and dl: "inv_deadline now st"
    by (simp_all add: invariant4_def invariant_def)
  have a: "suspended st = Some a \<and> globalTimeout (frame a) \<noteq> Fired
          \<and> now + delay (shutdownTimeout st) \<le> clock st + delay (perHookTimeout st)
          \<and> (handler (handlers st ! index (frame a)) = Returns NeverSettles
             \<or> handler (handlers st ! index (frame a)) = Returns (SettlesAfter d s)
               \<and> now + delay (shutdownTimeout st) \<le> clock st + d) \<longrightarrow>
            outcome a = Resolved (Text ''global-timeout'')
          \<and> settlesAt a = now + delay (shutdownTimeout st)"
  proof
    assume p: "suspended st = Some a \<and> globalTimeout (frame a) \<noteq> Fired
          \<and> now + delay (shutdownTimeout st) \<le> clock st + delay (perHookTimeout st)
          \<and> (handler (handlers st ! index (frame a)) = Returns NeverSettles
             \<or> handler (handlers st ! index (frame a)) = Returns (SettlesAfter d s)
               \<and> now + delay (shutdownTimeout st) \<le> clock st + d)"
    then have su: "suspended st = Some a"
      and lt: "now + delay (shutdownTimeout st) \<le> clock st + delay (perHookTimeout st)"
      by blast+
    from p dl have g: "globalTimeout (frame a) = FiresAt (now + delay (shutdownTimeout st))"
      by (simp add: inv_deadline_def)
    from p consider
        (never) "handler (handlers st ! index (frame a)) = Returns NeverSettles"
      | (later) "handler (handlers st ! index (frame a)) = Returns (SettlesAfter d s)"
                "now + delay (shutdownTimeout st) \<le> clock st + d"
      by blast
    then have "(settlesAt a, outcome a) = (now + delay (shutdownTimeout st), Resolved (Text ''global-timeout''))"
    proof cases
      case never
      with rc su have "(settlesAt a, outcome a) =
          race NeverSettles (clock st) (perHookTimeout st) (globalTimeout (frame a))"
        by (simp add: inv_race_def)
      with g lt show ?thesis by (simp add: timer_wins_def)
    next
      case later
      with rc su have "(settlesAt a, outcome a) =
          race (SettlesAfter d s) (clock st) (perHookTimeout st) (globalTimeout (frame a))"
        by (simp add: inv_race_def)
      with g lt later(2) show ?thesis by (simp add: timer_wins_def)
    qed
    then show "outcome a = Resolved (Text ''global-timeout'')
          \<and> settlesAt a = now + delay (shutdownTimeout st)"
      by simp
  qed
  have b: "suspended st = Some a \<and> outcome a = Resolved (Text ''global-timeout'') \<longrightarrow>
            resume st =
              loop (drop (Suc (index (frame a))) (handlers st))
                ((frame a)\<lparr>forceExit := True, index := Suc (index (frame a)), globalTimeout := Fired\<rparr>)
                (st\<lparr>suspended := None, clock := settlesAt a,
                    trace := trace st @ [Finished (index (frame a)) (settlesAt a)
                                           (Resolved (Text ''global-timeout''))]\<rparr>)
          \<and> (completed (exec later (resume st)) \<longrightarrow>
               exits (trace (exec later (resume st))) = [1]
             \<and> (logger st \<longrightarrow> Log Warn None GlobalReached \<in> set (trace (exec later (resume st)))))"
  proof
    assume p: "suspended st = Some a \<and> outcome a = Resolved (Text ''global-timeout'')"
    then have su: "suspended st = Some a" and o: "outcome a = Resolved (Text ''global-timeout'')"
      by blast+
    obtain X where "trace (resume st) =
        trace st @ Finished (index (frame a)) (settlesAt a) (outcome a) # X"
      using resume_first [OF su] by blast
    with o have "deadlineReached (trace (resume st))" by simp
    moreover have "invariant (resume st)" using invariant_step [OF i, of Resume] by simp
    ultimately have "completed (exec later (resume st)) \<longrightarrow>
               exits (trace (exec later (resume st))) = [1]
             \<and> (logger (resume st) \<longrightarrow> Log Warn None GlobalReached \<in> set (trace (exec later (resume st))))"
      using deadline_gives_exit_1 by blast
    then have c: "completed (exec later (resume st)) \<longrightarrow>
               exits (trace (exec later (resume st))) = [1]
             \<and> (logger st \<longrightarrow> Log Warn None GlobalReached \<in> set (trace (exec later (resume st))))"
      by simp
    note r = resume_global_timeout [OF su o]
    show "resume st =
              loop (drop (Suc (index (frame a))) (handlers st))
                ((frame a)\<lparr>forceExit := True, index := Suc (index (frame a)), globalTimeout := Fired\<rparr>)
                (st\<lparr>suspended := None, clock := settlesAt a,
                    trace := trace st @ [Finished (index (frame a)) (settlesAt a)
                                           (Resolved (Text ''global-timeout''))]\<rparr>)
          \<and> (completed (exec later (resume st)) \<longrightarrow>
               exits (trace (exec later (resume st))) = [1]
             \<and> (logger st \<longrightarrow> Log Warn None GlobalReached \<in> set (trace (exec later (resume st)))))"
      by (intro conjI) (rule r c)+
  qed
  have c: "suspended st = Some a \<longrightarrow>
            (globalTimeout (frame a) = Fired) = deadlineReached (trace st)"
    using f by (auto simp add: inv_flags_def)
  have c': "suspended st = Some a \<and> globalTimeout (frame a) \<noteq> Fired \<longrightarrow>
            clock st < now + delay (shutdownTimeout st)"
    using dl by (auto simp add: inv_deadline_def)
  have d: "suspended st = Some a \<and> globalTimeout (frame a) = Fired
          \<and> (handler (handlers st ! index (frame a)) = Returns NeverSettles
             \<or> handler (handlers st ! index (frame a)) = Returns (SettlesAfter d s)) \<longrightarrow>
            outcome a = Resolved (Text ''global-timeout'') \<and> settlesAt a = clock st"
  proof
    assume p: "suspended st = Some a \<and> globalTimeout (frame a) = Fired
          \<and> (handler (handlers st ! index (frame a)) = Returns NeverSettles
             \<or> handler (handlers st ! index (frame a)) = Returns (SettlesAfter d s))"
    then have su: "suspended st = Some a" and g: "globalTimeout (frame a) = Fired" by blast+
    from p consider
        (never) "handler (handlers st ! index (frame a)) = Returns NeverSettles"
      | (later) "handler (handlers st ! index (frame a)) = Returns (SettlesAfter d s)"
      by blast
    then have "(settlesAt a, outcome a) = (clock st, Resolved (Text ''global-timeout''))"
    proof cases
      case never
      with rc su have "(settlesAt a, outcome a) =
          race NeverSettles (clock st) (perHookTimeout st) (globalTimeout (frame a))"
        by (simp add: inv_race_def)
      with g show ?thesis by simp
    next
      case later
      with rc su have "(settlesAt a, outcome a) =
          race (SettlesAfter d s) (clock st) (perHookTimeout st) (globalTimeout (frame a))"
        by (simp add: inv_race_def)
      with g show ?thesis by simp
    qed
    then show "outcome a = Resolved (Text ''global-timeout'') \<and> settlesAt a = clock st"
      by simp
  qed
  have e: "suspended st = Some a
          \<and> (handler (handlers st ! index (frame a)) = ReturnsVoid
             \<or> handler (handlers st ! index (frame a)) = Returns (Settled Fulfils)) \<longrightarrow>
            outcome a = Resolved Undefined \<and> settlesAt a = clock st"
  proof
    assume p: "suspended st = Some a
          \<and> (handler (handlers st ! index (frame a)) = ReturnsVoid
             \<or> handler (handlers st ! index (frame a)) = Returns (Settled Fulfils))"
    then have su: "suspended st = Some a" by blast
    from p have "returned (handler (handlers st ! index (frame a))) = Some (Settled Fulfils)"
      by auto
    with rc su have "(settlesAt a, outcome a) =
          race (Settled Fulfils) (clock st) (perHookTimeout st) (globalTimeout (frame a))"
      by (simp add: inv_race_def)
    then show "outcome a = Resolved Undefined \<and> settlesAt a = clock st" by simp
  qed
  have e': "suspended st = Some a
          \<and> handler (handlers st ! index (frame a)) = Returns (Settled (Rejects e)) \<longrightarrow>
            outcome a = Rejected e \<and> settlesAt a = clock st"
    using rc by (auto simp add: inv_race_def)
  from a b c c' d e e' show ?thesis by (intro conjI)
qed

text \<open>
  Four instances.  A global delay of 10 ms against a per-hook delay of 20 ms.  A
  per-hook delay of 5 ms and a global delay of 10 ms with two hooks that never settle:
  the second per-hook timer is due at the deadline, and the global timer wins.  A
  configured per-hook delay of 0 and a global delay of \<open>2^31\<close>, both taken as 1 ms by
  Node: the global timer wins again.  A configured global delay of \<open>- 7\<close>, taken as
  1 ms, against a per-hook delay of 50 ms.
\<close>

theorem global_deadline_forces_exit_witness:
  "suspended (exec [AddHook ''a'' (Returns NeverSettles), AddHook ''b'' (Returns (SettlesAfter 1 Fulfils)),
                    Emit ''SIGINT'' Undefined]
       (construct (Some \<lparr>signals_opt = Some [''SIGINT''], log_opt = True,
                           perHookTimeout_opt = Some 20, shutdownTimeout_opt = Some 10\<rparr>) [] 0 0))
     = Some \<lparr>frame = \<lparr>signal = ''SIGINT'', withError = False, forceExit = False, index = 0,
                       globalTimeout = FiresAt 10\<rparr>,
              hookName = ''a'', settlesAt = 10, outcome = Resolved (Text ''global-timeout'')\<rparr>
   \<and> completed (exec [Resume] (resume (exec [AddHook ''a'' (Returns NeverSettles),
                    AddHook ''b'' (Returns (SettlesAfter 1 Fulfils)), Emit ''SIGINT'' Undefined]
       (construct (Some \<lparr>signals_opt = Some [''SIGINT''], log_opt = True,
                           perHookTimeout_opt = Some 20, shutdownTimeout_opt = Some 10\<rparr>) [] 0 0))))
   \<and> trace (exec [Resume] (resume (exec [AddHook ''a'' (Returns NeverSettles),
                    AddHook ''b'' (Returns (SettlesAfter 1 Fulfils)), Emit ''SIGINT'' Undefined]
       (construct (Some \<lparr>signals_opt = Some [''SIGINT''], log_opt = True,
                           perHookTimeout_opt = Some 20, shutdownTimeout_opt = Some 10\<rparr>) [] 0 0))))
     = [Log Info None (Registered ''a''), Log Info None (Registered ''b''),
        Log Info (Some (SignalCtx ''SIGINT'')) ProcessingSignal, AbortFired,
        Log Info None (ProcessingHook ''a''), Invoked 0,
        Finished 0 10 (Resolved (Text ''global-timeout'')),
        Log Info None (ProcessingHook ''b''), Invoked 1,
        Finished 1 10 (Resolved (Text ''global-timeout'')),
        Log Info (Some (SignalCtx ''SIGINT'')) Completed, Log Warn None GlobalReached, Exited 1]
   \<and> exits (trace (exec [Resume] (resume (exec [AddHook ''a'' (Returns NeverSettles),
                    AddHook ''b'' (Returns (SettlesAfter 1 Fulfils)), Emit ''SIGINT'' Undefined]
       (construct (Some \<lparr>signals_opt = Some [''SIGINT''], log_opt = True,
                           perHookTimeout_opt = Some 20, shutdownTimeout_opt = Some 10\<rparr>) [] 0 0))))) = [1]
   \<and> clock (exec [AddHook ''c'' (Returns NeverSettles), AddHook ''d'' (Returns NeverSettles),
                    Emit ''SIGINT'' Undefined, Resume]
       (construct (Some \<lparr>signals_opt = Some [''SIGINT''], log_opt = True,
                           perHookTimeout_opt = Some 5, shutdownTimeout_opt = Some 10\<rparr>) [] 0 0)) = 5
   \<and> suspended (exec [AddHook ''c'' (Returns NeverSettles), AddHook ''d'' (Returns NeverSettles),
                    Emit ''SIGINT'' Undefined, Resume]
       (construct (Some \<lparr>signals_opt = Some [''SIGINT''], log_opt = True,
                           perHookTimeout_opt = Some 5, shutdownTimeout_opt = Some 10\<rparr>) [] 0 0))
     = Some \<lparr>frame = \<lparr>signal = ''SIGINT'', withError = True, forceExit = False, index = 1,
                       globalTimeout = FiresAt 10\<rparr>,
              hookName = ''d'', settlesAt = 10, outcome = Resolved (Text ''global-timeout'')\<rparr>
   \<and> suspended (exec [AddHook ''e'' (Returns NeverSettles), Emit ''SIGINT'' Undefined]
       (construct (Some \<lparr>signals_opt = Some [''SIGINT''], log_opt = True,
                           perHookTimeout_opt = Some 0, shutdownTimeout_opt = Some 2147483648\<rparr>)
          [] 0 0))
     = Some \<lparr>frame = \<lparr>signal = ''SIGINT'', withError = False, forceExit = False, index = 0,
                       globalTimeout = FiresAt 1\<rparr>,
              hookName = ''e'', settlesAt = 1, outcome = Resolved (Text ''global-timeout'')\<rparr>
   \<and> suspended (exec [AddHook ''f'' (Returns NeverSettles), Emit ''SIGINT'' Undefined]
       (construct (Some \<lparr>signals_opt = Some [''SIGINT''], log_opt = True,
                           perHookTimeout_opt = Some 50, shutdownTimeout_opt = Some (- 7)\<rparr>)
          [] 0 0))
     = Some \<lparr>frame = \<lparr>signal = ''SIGINT'', withError = False, forceExit = False, index = 0,
                       globalTimeout = FiresAt 1\<rparr>,
              hookName = ''f'', settlesAt = 1, outcome = Resolved (Text ''global-timeout'')\<rparr>"
proof -
  let ?st = "exec [AddHook ''a'' (Returns NeverSettles), AddHook ''b'' (Returns (SettlesAfter 1 Fulfils)),
                    Emit ''SIGINT'' Undefined]
       (construct (Some \<lparr>signals_opt = Some [''SIGINT''], log_opt = True,
                           perHookTimeout_opt = Some 20, shutdownTimeout_opt = Some 10\<rparr>) [] 0 0)"
  let ?a = "\<lparr>frame = \<lparr>signal = ''SIGINT'', withError = False, forceExit = False, index = 0,
                       globalTimeout = FiresAt 10\<rparr>,
              hookName = ''a'', settlesAt = 10, outcome = Resolved (Text ''global-timeout'')\<rparr>"
  let ?st2 = "exec [AddHook ''c'' (Returns NeverSettles), AddHook ''d'' (Returns NeverSettles),
                    Emit ''SIGINT'' Undefined, Resume]
       (construct (Some \<lparr>signals_opt = Some [''SIGINT''], log_opt = True,
                           perHookTimeout_opt = Some 5, shutdownTimeout_opt = Some 10\<rparr>) [] 0 0)"
  let ?a2 = "\<lparr>frame = \<lparr>signal = ''SIGINT'', withError = True, forceExit = False, index = 1,
                       globalTimeout = FiresAt 10\<rparr>,
              hookName = ''d'', settlesAt = 10::nat, outcome = Resolved (Text ''global-timeout'')\<rparr>"
  have su: "suspended ?st = Some ?a"
    by (simp add: machine_defs)
  have su2: "suspended ?st2 = Some ?a2" and c2: "clock ?st2 = 5"
    and h2: "handler (handlers ?st2 ! index (frame ?a2)) = Returns NeverSettles"
    and d2: "0 + delay (shutdownTimeout ?st2) \<le> clock ?st2 + delay (perHookTimeout ?st2)"
    by (simp_all add: machine_defs)
  have g2: "globalTimeout (frame ?a2) \<noteq> Fired" by simp
  let ?st3 = "exec [AddHook ''e'' (Returns NeverSettles), Emit ''SIGINT'' Undefined]
       (construct (Some \<lparr>signals_opt = Some [''SIGINT''], log_opt = True,
                           perHookTimeout_opt = Some 0, shutdownTimeout_opt = Some 2147483648\<rparr>)
          [] 0 0)"
  let ?a3 = "\<lparr>frame = \<lparr>signal = ''SIGINT'', withError = False, forceExit = False, index = 0,
                       globalTimeout = FiresAt 1\<rparr>,
              hookName = ''e'', settlesAt = 1::nat, outcome = Resolved (Text ''global-timeout'')\<rparr>"
  have su3: "suspended ?st3 = Some ?a3"
    and h3: "handler (handlers ?st3 ! index (frame ?a3)) = Returns NeverSettles"
    and d3: "0 + delay (shutdownTimeout ?st3) \<le> clock ?st3 + delay (perHookTimeout ?st3)"
    by (simp_all add: machine_defs)
  have g3: "globalTimeout (frame ?a3) \<noteq> Fired" by simp
  from global_deadline_forces_exit [OF refl, where a = ?a3] su3 g3 h3 d3
  have o3: "outcome ?a3 = Resolved (Text ''global-timeout'')
      \<and> settlesAt ?a3 = 0 + delay (shutdownTimeout ?st3)"
    by blast
  let ?st4 = "exec [AddHook ''f'' (Returns NeverSettles), Emit ''SIGINT'' Undefined]
       (construct (Some \<lparr>signals_opt = Some [''SIGINT''], log_opt = True,
                           perHookTimeout_opt = Some 50, shutdownTimeout_opt = Some (- 7)\<rparr>)
          [] 0 0)"
  let ?a4 = "\<lparr>frame = \<lparr>signal = ''SIGINT'', withError = False, forceExit = False, index = 0,
                       globalTimeout = FiresAt 1\<rparr>,
              hookName = ''f'', settlesAt = 1::nat, outcome = Resolved (Text ''global-timeout'')\<rparr>"
  have su4: "suspended ?st4 = Some ?a4"
    and h4: "handler (handlers ?st4 ! index (frame ?a4)) = Returns NeverSettles"
    and d4: "0 + delay (shutdownTimeout ?st4) \<le> clock ?st4 + delay (perHookTimeout ?st4)"
    by (simp_all add: machine_defs)
  have g4: "globalTimeout (frame ?a4) \<noteq> Fired" by simp
  from global_deadline_forces_exit [OF refl, where a = ?a4] su4 g4 h4 d4
  have o4: "outcome ?a4 = Resolved (Text ''global-timeout'')
      \<and> settlesAt ?a4 = 0 + delay (shutdownTimeout ?st4)"
    by blast
  from global_deadline_forces_exit [OF refl, where a = ?a2] su2 g2 h2 d2
  have o2: "outcome ?a2 = Resolved (Text ''global-timeout'')
      \<and> settlesAt ?a2 = 0 + delay (shutdownTimeout ?st2)"
    by blast
  have t: "trace (exec [Resume] (resume ?st))
     = [Log Info None (Registered ''a''), Log Info None (Registered ''b''),
        Log Info (Some (SignalCtx ''SIGINT'')) ProcessingSignal, AbortFired,
        Log Info None (ProcessingHook ''a''), Invoked 0,
        Finished 0 10 (Resolved (Text ''global-timeout'')),
        Log Info None (ProcessingHook ''b''), Invoked 1,
        Finished 1 10 (Resolved (Text ''global-timeout'')),
        Log Info (Some (SignalCtx ''SIGINT'')) Completed, Log Warn None GlobalReached, Exited 1]"
    and c: "completed (exec [Resume] (resume ?st))"
    by (simp_all add: machine_defs)
  have o: "outcome ?a = Resolved (Text ''global-timeout'')" by simp
  from global_deadline_forces_exit [OF refl, where a = ?a and later = "[Resume]"] su o c
  have "exits (trace (exec [Resume] (resume ?st))) = [1]"
    by blast
  with su c t su2 c2 su3 su4 show ?thesis by blast
qed

end
